theory Spec2Isabelle
  imports Main "HOL-Library.Char_ord" "HOL-Library.List_Lexorder" "HOL-Library.Sublist"
begin

section \<open>The catalog builder of PSLmodels/PSL\<close>

text \<open>
  A shallow embedding of \<^verbatim>\<open>Catalog/catalog_builder/catalog.py\<close>: the class
  \<^verbatim>\<open>CatalogBuilder\<close> with its constructor, \<^verbatim>\<open>load_catalog\<close> and
  \<^verbatim>\<open>dump_catalog\<close>, together with the parts of Python it runs on: dictionaries
  that keep insertion order, \<^verbatim>\<open>json.loads\<close>, \<^verbatim>\<open>json.dumps\<close>, \<^verbatim>\<open>repr\<close>,
  \<^verbatim>\<open>str.upper\<close>, \<^verbatim>\<open>sorted\<close> and \<^verbatim>\<open>os.path.join\<close>.

  Python strings are modelled as \<^typ>\<open>string\<close>; a \<^typ>\<open>char\<close> is read as the code
  point of the same number, so the model covers the code points U+0000 to U+00FF.
  Floating-point numbers are not modelled. Where a JSON text leaves this fragment the
  reader returns the error \<open>Unmodelled\<close>, so that a statement about a successful
  read never speaks about such a text.
\<close>

subsection \<open>JSON values, errors, dictionaries\<close>

text \<open>
  The values \<^verbatim>\<open>json.loads\<close> produces. A Python \<^verbatim>\<open>dict\<close> is an association list in
  insertion order; its keys are pairwise distinct in every value the program builds.
\<close>

datatype json =
    JNull
  | JBool bool
  | JInt int
  | JStr string
  | JArr "json list"
  | JObj "(string \<times> json) list"

datatype error =
    ProjectDoesNotExist string
  | KeyError string
  | TypeError
  | AttributeError
  | JSONDecodeError
  | OSError string
  | RemoteError string
  | Unmodelled
  | OutOfFuel

abbreviation dquote :: char where "dquote \<equiv> CHR 0x22"
abbreviation backslash :: char where "backslash \<equiv> CHR 0x5C"
abbreviation newline :: char where "newline \<equiv> CHR 0x0A"

text \<open>
  \<^verbatim>\<open>d[k] = v\<close>: an existing key keeps its place and takes the new value, a new
  key goes to the end. \<open>py_dict\<close> is \<^verbatim>\<open>dict(pairs)\<close>.
\<close>

fun dict_set :: "('k \<times> 'v) list \<Rightarrow> 'k \<Rightarrow> 'v \<Rightarrow> ('k \<times> 'v) list" where
  "dict_set [] k v = [(k, v)]"
| "dict_set ((k', v') # d) k v =
     (if k' = k then (k', v) # d else (k', v') # dict_set d k v)"

definition py_dict :: "('k \<times> 'v) list \<Rightarrow> ('k \<times> 'v) list" where
  "py_dict pairs = foldl (\<lambda>d kv. dict_set d (fst kv) (snd kv)) [] pairs"

subsection \<open>Reading JSON: \<^verbatim>\<open>json.loads\<close>\<close>

text \<open>
  The decoder of the standard library in its default configuration (strict mode):
  white space is blank, tab, line feed and carriage return; a string ends at the first
  unescaped double quote, may not contain a control character, and knows the escapes
  \<^verbatim>\<open>\" \\ \/ \b \f \n \r \t\<close> and \<^verbatim>\<open>\uXXXX\<close> with four hexadecimal digits.
\<close>

definition is_ws :: "char \<Rightarrow> bool" where
  "is_ws c \<longleftrightarrow> c = CHR '' '' \<or> c = CHR 0x09 \<or> c = CHR 0x0A \<or> c = CHR 0x0D"

definition skip_ws :: "string \<Rightarrow> string" where
  "skip_ws s = dropWhile is_ws s"

definition is_digit :: "char \<Rightarrow> bool" where
  "is_digit c \<longleftrightarrow> 48 \<le> (of_char c :: nat) \<and> (of_char c :: nat) \<le> 57"

definition hex_val :: "char \<Rightarrow> nat option" where
  "hex_val c =
     (let n = (of_char c :: nat) in
      if 48 \<le> n \<and> n \<le> 57 then Some (n - 48)
      else if 97 \<le> n \<and> n \<le> 102 then Some (n - 87)
      else if 65 \<le> n \<and> n \<le> 70 then Some (n - 55)
      else None)"

definition hex4 :: "char \<Rightarrow> char \<Rightarrow> char \<Rightarrow> char \<Rightarrow> nat option" where
  "hex4 a b c d =
     (case (hex_val a, hex_val b, hex_val c, hex_val d) of
        (Some x, Some y, Some z, Some w) \<Rightarrow> Some (((x * 16 + y) * 16 + z) * 16 + w)
      | _ \<Rightarrow> None)"

definition unescape :: "char \<Rightarrow> char option" where
  "unescape e =
     (if e = dquote then Some dquote
      else if e = backslash then Some backslash
      else if e = CHR ''/'' then Some CHR ''/''
      else if e = CHR ''b'' then Some (CHR 0x08)
      else if e = CHR ''f'' then Some (CHR 0x0C)
      else if e = CHR ''n'' then Some (CHR 0x0A)
      else if e = CHR ''r'' then Some (CHR 0x0D)
      else if e = CHR ''t'' then Some (CHR 0x09)
      else None)"

definition cons_result :: "char \<Rightarrow> error + (string \<times> string) \<Rightarrow> error + (string \<times> string)" where
  "cons_result c r = (case r of Inl e \<Rightarrow> Inl e | Inr (s, rest) \<Rightarrow> Inr (c # s, rest))"

fun scanstring :: "string \<Rightarrow> error + (string \<times> string)" where
  "scanstring [] = Inl JSONDecodeError"
| "scanstring (c # cs) =
     (if c = dquote then Inr ([], cs)
      else if c = backslash then
        (case cs of
           [] \<Rightarrow> Inl JSONDecodeError
         | e # r \<Rightarrow>
             if e = CHR ''u'' then
               (case r of
                  h1 # h2 # h3 # h4 # r' \<Rightarrow>
                    (case hex4 h1 h2 h3 h4 of
                       None \<Rightarrow> Inl JSONDecodeError
                     | Some n \<Rightarrow>
                         if n < 256 then cons_result (char_of n) (scanstring r')
                         else Inl Unmodelled)
                | _ \<Rightarrow> Inl JSONDecodeError)
             else
               (case unescape e of
                  None \<Rightarrow> Inl JSONDecodeError
                | Some ch \<Rightarrow> cons_result ch (scanstring r)))
      else if (of_char c :: nat) < 32 then Inl JSONDecodeError
      else cons_result c (scanstring cs))"


text \<open>
  Numbers match \<^verbatim>\<open>(-?(?:0|[1-9][0-9]*))(\.[0-9]+)?([eE][-+]?[0-9]+)?\<close>; without
  fraction and exponent the value is a Python \<^verbatim>\<open>int\<close>, which is unbounded.
\<close>

definition digit_val :: "char \<Rightarrow> nat" where
  "digit_val c = (of_char c :: nat) - 48"

definition nat_of_digits :: "string \<Rightarrow> nat" where
  "nat_of_digits ds = foldl (\<lambda>n c. 10 * n + digit_val c) 0 ds"

definition has_frac :: "string \<Rightarrow> bool" where
  "has_frac s = (case s of c # d # _ \<Rightarrow> c = CHR ''.'' \<and> is_digit d | _ \<Rightarrow> False)"

definition has_exp :: "string \<Rightarrow> bool" where
  "has_exp s =
     (case s of
        [] \<Rightarrow> False
      | e # r \<Rightarrow>
          (e = CHR ''e'' \<or> e = CHR ''E'') \<and>
          (case r of
             [] \<Rightarrow> False
           | c # r' \<Rightarrow>
               is_digit c \<or>
               ((c = CHR ''+'' \<or> c = CHR ''-'') \<and> (case r' of [] \<Rightarrow> False | d # _ \<Rightarrow> is_digit d))))"

definition match_number :: "string \<Rightarrow> error + (json \<times> string)" where
  "match_number s =
     (let neg = (case s of [] \<Rightarrow> False | c # _ \<Rightarrow> c = CHR ''-'');
          s1 = (if neg then tl s else s)
      in case s1 of
           [] \<Rightarrow> Inl JSONDecodeError
         | d # r \<Rightarrow>
             if \<not> is_digit d then
               (if neg \<and> prefix ''Infinity'' s1 then Inl Unmodelled else Inl JSONDecodeError)
             else
               (let ds = (if d = CHR ''0'' then [d] else d # takeWhile is_digit r);
                    rest = (if d = CHR ''0'' then r else dropWhile is_digit r);
                    n = int (nat_of_digits ds)
                in if has_frac rest \<or> has_exp rest then Inl Unmodelled
                   else Inr (JInt (if neg then - n else n), rest)))"

text \<open>
  \<open>scan_once\<close> reads one value at the head of the text and returns it with the rest
  of the text; \<open>scan_members\<close> is the loop of \<^verbatim>\<open>JSONObject\<close>, entered after the
  opening quote of a key, \<open>scan_elems\<close> the loop of \<^verbatim>\<open>JSONArray\<close>. The first
  argument bounds the number of nested calls and makes the recursion structural. Every
  second call at least consumes a character, and \<open>json_loads\<close> starts with more than
  twice the length of the text, so that \<open>OutOfFuel\<close> is never its result (lemma
  \<open>json_loads_fuel\<close> below).
\<close>

fun scan_once :: "nat \<Rightarrow> string \<Rightarrow> error + (json \<times> string)"
  and scan_members :: "nat \<Rightarrow> string \<Rightarrow> (string \<times> json) list \<Rightarrow> error + ((string \<times> json) list \<times> string)"
  and scan_elems :: "nat \<Rightarrow> string \<Rightarrow> json list \<Rightarrow> error + (json list \<times> string)"
where
  "scan_once 0 s = Inl OutOfFuel"
| "scan_once (Suc n) s =
     (case s of
        [] \<Rightarrow> Inl JSONDecodeError
      | c # r \<Rightarrow>
          if c = dquote then
            (case scanstring r of Inl e \<Rightarrow> Inl e | Inr (str, rest) \<Rightarrow> Inr (JStr str, rest))
          else if c = CHR ''{'' then
            (case skip_ws r of
               [] \<Rightarrow> Inl JSONDecodeError
             | c1 # r1 \<Rightarrow>
                 if c1 = CHR ''}'' then Inr (JObj [], r1)
                 else if c1 = dquote then
                   (case scan_members n r1 [] of
                      Inl e \<Rightarrow> Inl e
                    | Inr (pairs, rest) \<Rightarrow> Inr (JObj (py_dict pairs), rest))
                 else Inl JSONDecodeError)
          else if c = CHR ''['' then
            (case skip_ws r of
               [] \<Rightarrow> Inl JSONDecodeError
             | c1 # r1 \<Rightarrow>
                 if c1 = CHR '']'' then Inr (JArr [], r1)
                 else
                   (case scan_elems n (c1 # r1) [] of
                      Inl e \<Rightarrow> Inl e
                    | Inr (vs, rest) \<Rightarrow> Inr (JArr vs, rest)))
          else if prefix ''null'' s then Inr (JNull, drop 4 s)
          else if prefix ''true'' s then Inr (JBool True, drop 4 s)
          else if prefix ''false'' s then Inr (JBool False, drop 5 s)
          else if is_digit c \<or> c = CHR ''-'' then match_number s
          else if prefix ''NaN'' s \<or> prefix ''Infinity'' s then Inl Unmodelled
          else Inl JSONDecodeError)"
| "scan_members 0 s acc = Inl OutOfFuel"
| "scan_members (Suc n) s acc =
     (case scanstring s of
        Inl e \<Rightarrow> Inl e
      | Inr (key, r) \<Rightarrow>
          (case skip_ws r of
             [] \<Rightarrow> Inl JSONDecodeError
           | c # r1 \<Rightarrow>
               if c \<noteq> CHR '':'' then Inl JSONDecodeError
               else
                 (case scan_once n (skip_ws r1) of
                    Inl e \<Rightarrow> Inl e
                  | Inr (v, r2) \<Rightarrow>
                      (case skip_ws r2 of
                         [] \<Rightarrow> Inl JSONDecodeError
                       | c2 # r3 \<Rightarrow>
                           if c2 = CHR ''}'' then Inr (acc @ [(key, v)], r3)
                           else if c2 = CHR '','' then
                             (case skip_ws r3 of
                                [] \<Rightarrow> Inl JSONDecodeError
                              | c3 # r4 \<Rightarrow>
                                  if c3 = dquote then scan_members n r4 (acc @ [(key, v)])
                                  else Inl JSONDecodeError)
                           else Inl JSONDecodeError))))"
| "scan_elems 0 s acc = Inl OutOfFuel"
| "scan_elems (Suc n) s acc =
     (case scan_once n s of
        Inl e \<Rightarrow> Inl e
      | Inr (v, r) \<Rightarrow>
          (case skip_ws r of
             [] \<Rightarrow> Inl JSONDecodeError
           | c # r1 \<Rightarrow>
               if c = CHR '']'' then Inr (acc @ [v], r1)
               else if c = CHR '','' then scan_elems n (skip_ws r1) (acc @ [v])
               else Inl JSONDecodeError))"

definition json_loads :: "string \<Rightarrow> error + json" where
  "json_loads s =
     (case scan_once (Suc (2 * length s)) (skip_ws s) of
        Inl e \<Rightarrow> Inl e
      | Inr (v, rest) \<Rightarrow> if skip_ws rest = [] then Inr v else Inl JSONDecodeError)"


subsection \<open>Writing JSON: \<^verbatim>\<open>json.dumps\<close> with an indentation\<close>

text \<open>
  The encoder with its defaults (\<^verbatim>\<open>ensure_ascii=True\<close>) and an indentation given:
  the separators are \<^verbatim>\<open>","\<close> and \<^verbatim>\<open>": "\<close>, an empty container is \<^verbatim>\<open>[]\<close> or
  \<^verbatim>\<open>{}\<close>, every item of a non-empty container starts a line indented by the
  indentation times its depth, and keys come in the order of the dictionary.
\<close>

definition digit_char :: "nat \<Rightarrow> char" where
  "digit_char d = char_of (48 + d)"

fun digits_of :: "nat \<Rightarrow> string" where
  "digits_of n = (if n < 10 then [digit_char n] else digits_of (n div 10) @ [digit_char (n mod 10)])"

declare digits_of.simps [simp del]

definition str_of_int :: "int \<Rightarrow> string" where
  "str_of_int i = (if i < 0 then CHR ''-'' # digits_of (nat (- i)) else digits_of (nat i))"

definition hex_digit :: "nat \<Rightarrow> char" where
  "hex_digit d = (if d < 10 then char_of (48 + d) else char_of (87 + d))"

definition escape_ascii :: "char \<Rightarrow> string" where
  "escape_ascii c =
     (let n = (of_char c :: nat) in
      if c = dquote then [backslash, dquote]
      else if c = backslash then [backslash, backslash]
      else if n = 10 then [backslash, CHR ''n'']
      else if n = 13 then [backslash, CHR ''r'']
      else if n = 9 then [backslash, CHR ''t'']
      else if n = 8 then [backslash, CHR ''b'']
      else if n = 12 then [backslash, CHR ''f'']
      else if n < 32 \<or> 126 < n then
        [backslash, CHR ''u'', CHR ''0'', CHR ''0'', hex_digit (n div 16), hex_digit (n mod 16)]
      else [c])"

definition encode_basestring_ascii :: "string \<Rightarrow> string" where
  "encode_basestring_ascii s = dquote # concat (map escape_ascii s) @ [dquote]"

definition newline_indent :: "nat \<Rightarrow> nat \<Rightarrow> string" where
  "newline_indent ind lvl = newline # replicate (ind * lvl) CHR '' ''"

fun iterencode :: "nat \<Rightarrow> nat \<Rightarrow> json \<Rightarrow> string"
  and iterencode_list :: "nat \<Rightarrow> nat \<Rightarrow> json list \<Rightarrow> string"
  and iterencode_dict :: "nat \<Rightarrow> nat \<Rightarrow> (string \<times> json) list \<Rightarrow> string"
where
  "iterencode ind lvl JNull = ''null''"
| "iterencode ind lvl (JBool b) = (if b then ''true'' else ''false'')"
| "iterencode ind lvl (JInt i) = str_of_int i"
| "iterencode ind lvl (JStr s) = encode_basestring_ascii s"
| "iterencode ind lvl (JArr xs) =
     (if xs = [] then ''[]''
      else ''['' @ newline_indent ind (Suc lvl) @ iterencode_list ind (Suc lvl) xs
           @ newline_indent ind lvl @ '']'')"
| "iterencode ind lvl (JObj kvs) =
     (if kvs = [] then ''{}''
      else ''{'' @ newline_indent ind (Suc lvl) @ iterencode_dict ind (Suc lvl) kvs
           @ newline_indent ind lvl @ ''}'')"
| "iterencode_list ind lvl [] = []"
| "iterencode_list ind lvl (x # xs) =
     iterencode ind lvl x
     @ (if xs = [] then [] else '','' @ newline_indent ind lvl @ iterencode_list ind lvl xs)"
| "iterencode_dict ind lvl [] = []"
| "iterencode_dict ind lvl (kv # kvs) =
     encode_basestring_ascii (fst kv) @ '': '' @ iterencode ind lvl (snd kv)
     @ (if kvs = [] then [] else '','' @ newline_indent ind lvl @ iterencode_dict ind lvl kvs)"

definition json_dumps :: "nat \<Rightarrow> json \<Rightarrow> string" where
  "json_dumps ind j = iterencode ind 0 j"


subsection \<open>\<^verbatim>\<open>repr\<close>, \<^verbatim>\<open>str\<close>, \<^verbatim>\<open>str.upper\<close>, \<^verbatim>\<open>os.path.join\<close>\<close>

text \<open>
  \<^verbatim>\<open>repr\<close> of a string uses single quotes, unless the string has a single quote and
  no double quote; it escapes the quote, the backslash, tab, line feed and carriage
  return, and writes every other non-printable character as \<^verbatim>\<open>\xhh\<close>. Between
  U+0080 and U+00FF the printable characters are U+00A1 to U+00FF without U+00AD.
\<close>

abbreviation squote :: char where "squote \<equiv> CHR 0x27"

definition repr_quote :: "string \<Rightarrow> char" where
  "repr_quote s = (if squote \<in> set s \<and> dquote \<notin> set s then dquote else squote)"

definition is_printable :: "char \<Rightarrow> bool" where
  "is_printable c =
     (let n = (of_char c :: nat) in (32 \<le> n \<and> n < 127) \<or> (161 \<le> n \<and> n \<noteq> 173))"

definition repr_char :: "char \<Rightarrow> char \<Rightarrow> string" where
  "repr_char q c =
     (let n = (of_char c :: nat) in
      if c = q \<or> c = backslash then [backslash, c]
      else if n = 9 then [backslash, CHR ''t'']
      else if n = 10 then [backslash, CHR ''n'']
      else if n = 13 then [backslash, CHR ''r'']
      else if \<not> is_printable c then [backslash, CHR ''x'', hex_digit (n div 16), hex_digit (n mod 16)]
      else [c])"

definition repr_str :: "string \<Rightarrow> string" where
  "repr_str s = (let q = repr_quote s in q # concat (map (repr_char q) s) @ [q])"

fun py_repr :: "json \<Rightarrow> string"
  and py_repr_list :: "json list \<Rightarrow> string"
  and py_repr_dict :: "(string \<times> json) list \<Rightarrow> string"
where
  "py_repr JNull = ''None''"
| "py_repr (JBool b) = (if b then ''True'' else ''False'')"
| "py_repr (JInt i) = str_of_int i"
| "py_repr (JStr s) = repr_str s"
| "py_repr (JArr xs) = ''['' @ py_repr_list xs @ '']''"
| "py_repr (JObj kvs) = ''{'' @ py_repr_dict kvs @ ''}''"
| "py_repr_list [] = []"
| "py_repr_list (x # xs) = py_repr x @ (if xs = [] then [] else '', '' @ py_repr_list xs)"
| "py_repr_dict [] = []"
| "py_repr_dict (kv # kvs) =
     repr_str (fst kv) @ '': '' @ py_repr (snd kv)
     @ (if kvs = [] then [] else '', '' @ py_repr_dict kvs)"

text \<open>What an f-string or \<^verbatim>\<open>str.format\<close> inserts for a value: \<^verbatim>\<open>str(x)\<close>.\<close>

definition py_str :: "json \<Rightarrow> string" where
  "py_str j = (case j of JStr s \<Rightarrow> s | _ \<Rightarrow> py_repr j)"

text \<open>
  \<^verbatim>\<open>str.upper\<close> on the code points U+0000 to U+00FF. The result is a list of code
  points, since it can leave that range and can be longer than the argument: the
  letters a to z and U+00E0 to U+00FE (without the division sign U+00F7) go to the
  letter 32 places below, U+00B5 goes to U+039C, U+00DF to the two letters
  \<^verbatim>\<open>SS\<close>, U+00FF to U+0178, and every other character stays. Python compares
  strings code point by code point, which is the lexicographic order of these lists.
\<close>

definition upper_points :: "char \<Rightarrow> nat list" where
  "upper_points c =
     (let n = (of_char c :: nat) in
      if 97 \<le> n \<and> n \<le> 122 then [n - 32]
      else if n = 181 then [924]
      else if n = 223 then [83, 83]
      else if 224 \<le> n \<and> n \<le> 254 \<and> n \<noteq> 247 then [n - 32]
      else if n = 255 then [376]
      else [n])"

definition py_upper :: "string \<Rightarrow> nat list" where
  "py_upper s = concat (map upper_points s)"

text \<open>\<^verbatim>\<open>posixpath.join\<close> of two components.\<close>

definition os_path_join :: "string \<Rightarrow> string \<Rightarrow> string" where
  "os_path_join a b =
     (if b \<noteq> [] \<and> hd b = CHR ''/'' then b
      else if a = [] \<or> last a = CHR ''/'' then a @ b
      else a @ ''/'' @ b)"

subsection \<open>Project references, the outside world, the builder\<close>

text \<open>
  An entry of the registry: \<^verbatim>\<open>{"org": ..., "repo": ..., "branch": ...}\<close>.
\<close>

record project =
  org :: string
  repo :: string
  branch :: string

text \<open>
  The module \<^verbatim>\<open>catalog_builder.utils\<close> is not part of the sources; its two functions
  that reach the hosting service are parameters of the model:
  \<open>raw_file\<close> is \<^verbatim>\<open>utils._get_from_github_api(org, repo, branch, path)\<close> and
  \<open>file_region\<close> is \<^verbatim>\<open>utils.get_from_github_api(project, config)\<close>; each returns
  a value or the exception it raises. \<open>current_path\<close> is \<^verbatim>\<open>CURRENT_PATH\<close>.
\<close>

record env =
  current_path :: string
  raw_file :: "string \<Rightarrow> string \<Rightarrow> string \<Rightarrow> string \<Rightarrow> error + string"
  file_region :: "project \<Rightarrow> (string \<times> json) list \<Rightarrow> error + json"

text \<open>
  The file system as far as the program uses it, and what it has printed:
  \<open>files\<close> maps a path to the text of the file there, \<open>can_write\<close> tells which
  paths \<^verbatim>\<open>open(path, "w")\<close> opens.
\<close>

record world =
  files :: "string \<Rightarrow> string option"
  can_write :: "string \<Rightarrow> bool"
  stdout :: "string list"

definition print :: "world \<Rightarrow> string \<Rightarrow> world" where
  "print w line = w\<lparr>stdout := stdout w @ [line]\<rparr>"

definition read_file :: "world \<Rightarrow> string \<Rightarrow> error + string" where
  "read_file w path = (case files w path of None \<Rightarrow> Inl (OSError path) | Some t \<Rightarrow> Inr t)"

text \<open>
  The attribute \<^verbatim>\<open>self.catalog\<close> holds either the \<^verbatim>\<open>defaultdict(dict)\<close> the
  constructor made, or the object \<^verbatim>\<open>json.load\<close> returned in replay mode.
\<close>

datatype catalog = DefaultDict "(string \<times> json) list" | Loaded json

definition catalog_json :: "catalog \<Rightarrow> json" where
  "catalog_json c = (case c of DefaultDict d \<Rightarrow> JObj d | Loaded j \<Rightarrow> j)"

record builder =
  projects :: "project list"
  index_dir :: string
  catalog :: catalog
  repos :: "(string \<times> string) list"
  develop :: bool

subsection \<open>The constructor\<close>

text \<open>
  The registry file holds a JSON array of project references. The model reads it into
  typed references at once; Python keeps the parsed document and fails later, at the
  first \<^verbatim>\<open>project["repo"]\<close> that is not there. A document that is not an array of
  objects with the three string fields is outside the model.
\<close>

definition project_of_json :: "json \<Rightarrow> error + project" where
  "project_of_json j =
     (case j of
        JObj kvs \<Rightarrow>
          (case (map_of kvs ''org'', map_of kvs ''repo'', map_of kvs ''branch'') of
             (Some (JStr a), Some (JStr b), Some (JStr c)) \<Rightarrow>
               Inr \<lparr>org = a, repo = b, branch = c\<rparr>
           | _ \<Rightarrow> Inl Unmodelled)
      | _ \<Rightarrow> Inl Unmodelled)"

fun projects_of_list :: "json list \<Rightarrow> error + project list" where
  "projects_of_list [] = Inr []"
| "projects_of_list (j # js) =
     (case project_of_json j of
        Inl e \<Rightarrow> Inl e
      | Inr p \<Rightarrow> (case projects_of_list js of Inl e \<Rightarrow> Inl e | Inr ps \<Rightarrow> Inr (p # ps)))"

definition read_register :: "env \<Rightarrow> world \<Rightarrow> error + project list" where
  "read_register e w =
     (case read_file w (os_path_join (current_path e) ''../register.json'') of
        Inl x \<Rightarrow> Inl x
      | Inr text \<Rightarrow>
          (case json_loads text of
             Inl x \<Rightarrow> Inl x
           | Inr (JArr js) \<Rightarrow> projects_of_list js
           | Inr _ \<Rightarrow> Inl Unmodelled))"

text \<open>
  The loop \<^verbatim>\<open>for project in self.projects: if project["repo"] == build_one: ...; break\<close>.
\<close>

fun find_project :: "project list \<Rightarrow> string \<Rightarrow> project option" where
  "find_project [] build_one = None"
| "find_project (p # ps) build_one =
     (if repo p = build_one then Some p else find_project ps build_one)"

text \<open>
  \<^verbatim>\<open>__init__(self, projects, index_dir, card_dir, develop, build_one)\<close>; the argument
  \<^verbatim>\<open>card_dir\<close> is never read and is left out.
\<close>

definition init ::
  "env \<Rightarrow> world \<Rightarrow> project list option \<Rightarrow> string option \<Rightarrow> bool \<Rightarrow> string option
     \<Rightarrow> error + builder" where
  "init e w projects_arg index_dir_arg develop_arg build_one =
     (case (case projects_arg of None \<Rightarrow> read_register e w | Some ps \<Rightarrow> Inr ps) of
        Inl x \<Rightarrow> Inl x
      | Inr ps \<Rightarrow>
          (let b = \<lparr>projects = ps,
                    index_dir =
                      (case index_dir_arg of
                         None \<Rightarrow> os_path_join (current_path e) ''../''
                       | Some d \<Rightarrow> if d = [] then os_path_join (current_path e) ''../'' else d),
                    catalog = DefaultDict [],
                    repos = [],
                    develop = develop_arg\<rparr>
           in case build_one of
                None \<Rightarrow> Inr b
              | Some name \<Rightarrow>
                  (case find_project ps name of
                     Some p \<Rightarrow> Inr (b\<lparr>projects := [p]\<rparr>)
                   | None \<Rightarrow>
                       Inl (ProjectDoesNotExist
                              (name @ '' is not in register.json or projects if provided.'')))))"

subsection \<open>\<^verbatim>\<open>load_catalog\<close>\<close>

text \<open>\<^verbatim>\<open>repo_url.format(project["org"], project["repo"])\<close>.\<close>

definition repo_url :: "project \<Rightarrow> string" where
  "repo_url p = ''https://github.com/'' @ org p @ ''/'' @ repo p"

text \<open>\<^verbatim>\<open>x[k]\<close> for a string \<^verbatim>\<open>k\<close>: only a dictionary has string subscripts.\<close>

definition getitem :: "json \<Rightarrow> string \<Rightarrow> error + json" where
  "getitem j k =
     (case j of
        JObj kvs \<Rightarrow> (case map_of kvs k of None \<Rightarrow> Inl (KeyError k) | Some v \<Rightarrow> Inr v)
      | _ \<Rightarrow> Inl TypeError)"

text \<open>\<^verbatim>\<open>x[k] = v\<close> for a string \<^verbatim>\<open>k\<close>.\<close>

definition setitem :: "json \<Rightarrow> string \<Rightarrow> json \<Rightarrow> error + json" where
  "setitem j k v = (case j of JObj kvs \<Rightarrow> Inr (JObj (dict_set kvs k v)) | _ \<Rightarrow> Inl TypeError)"

text \<open>
  \<^verbatim>\<open>self.catalog[r][a] = v\<close>. The \<^verbatim>\<open>defaultdict\<close> makes an empty dictionary for a
  repository it does not know; a plain dictionary raises \<^verbatim>\<open>KeyError\<close>.
\<close>

definition catalog_setitem :: "catalog \<Rightarrow> string \<Rightarrow> string \<Rightarrow> json \<Rightarrow> error + catalog" where
  "catalog_setitem c r a v =
     (case c of
        DefaultDict d \<Rightarrow>
          (case setitem (case map_of d r of None \<Rightarrow> JObj [] | Some entry \<Rightarrow> entry) a v of
             Inl x \<Rightarrow> Inl x
           | Inr entry' \<Rightarrow> Inr (DefaultDict (dict_set d r entry')))
      | Loaded j \<Rightarrow>
          (case getitem j r of
             Inl x \<Rightarrow> Inl x
           | Inr entry \<Rightarrow>
               (case setitem entry a v of
                  Inl x \<Rightarrow> Inl x
                | Inr entry' \<Rightarrow>
                    (case j of
                       JObj d \<Rightarrow> Inr (Loaded (JObj (dict_set d r entry')))
                     | _ \<Rightarrow> Inl TypeError))))"

text \<open>Lines 112 to 118: fetch \<^verbatim>\<open>PSL_catalog.json\<close> of the project and parse it.\<close>

definition fetch_descriptor :: "env \<Rightarrow> project \<Rightarrow> error + json" where
  "fetch_descriptor e p =
     (case raw_file e (org p) (repo p) (branch p) ''PSL_catalog.json'' of
        Inl x \<Rightarrow> Inl x
      | Inr text \<Rightarrow> json_loads text)"

text \<open>
  Lines 127 to 145: the resolved attribute of one entry \<^verbatim>\<open>attr, config\<close> of the
  descriptor, and the line printed on the way, if any.
\<close>

definition missing_data_msg :: "project \<Rightarrow> string \<Rightarrow> json \<Rightarrow> string" where
  "missing_data_msg p attr config =
     ''MISSING DATA: '' @ repo p @ '', entry: '' @ attr @ '', '' @ py_str config"

definition resolve_attr :: "env \<Rightarrow> project \<Rightarrow> string \<Rightarrow> json \<Rightarrow> error + (json \<times> string list)" where
  "resolve_attr e p attr config =
     (case getitem config ''type'' of
        Inl x \<Rightarrow> Inl x
      | Inr t \<Rightarrow>
          if t = JStr ''github_file'' then
            (case file_region e p (case config of JObj kvs \<Rightarrow> kvs | _ \<Rightarrow> []) of
               Inl x \<Rightarrow> Inl x
             | Inr value \<Rightarrow>
                 (case getitem config ''source'' of
                    Inl x \<Rightarrow> Inl x
                  | Inr src \<Rightarrow>
                      Inr (JObj [(''source'',
                                  JStr (''https://github.com/'' @ org p @ ''/'' @ repo p
                                        @ ''/blob/'' @ branch p @ ''/'' @ py_str src)),
                                 (''value'', value)], [])))
          else if t = JStr ''html'' then
            (case getitem config ''source'' of
               Inl x \<Rightarrow> Inl x
             | Inr source \<Rightarrow>
                 (case getitem config ''data'' of
                    Inl x \<Rightarrow> Inl x
                  | Inr value \<Rightarrow> Inr (JObj [(''source'', source), (''value'', value)], [])))
          else
            Inr (JObj [(''source'', JNull), (''value'', JNull)],
                 [missing_data_msg p attr config]))"

text \<open>One round of the inner loop, line 126 to 146.\<close>

definition load_attr ::
  "env \<Rightarrow> project \<Rightarrow> string \<times> json \<Rightarrow> world \<times> builder \<Rightarrow> error + (world \<times> builder)" where
  "load_attr e p ac st =
     (case resolve_attr e p (fst ac) (snd ac) of
        Inl x \<Rightarrow> Inl x
      | Inr (res, msgs) \<Rightarrow>
          (case catalog_setitem (catalog (snd st)) (repo p) (fst ac) res of
             Inl x \<Rightarrow> Inl x
           | Inr c \<Rightarrow> Inr (foldl print (fst st) msgs, (snd st)\<lparr>catalog := c\<rparr>)))"

fun load_attrs ::
  "env \<Rightarrow> project \<Rightarrow> (string \<times> json) list \<Rightarrow> world \<times> builder \<Rightarrow> error + (world \<times> builder)" where
  "load_attrs e p [] st = Inr st"
| "load_attrs e p (ac # rest) st =
     (case load_attr e p ac st of Inl x \<Rightarrow> Inl x | Inr st' \<Rightarrow> load_attrs e p rest st')"

text \<open>One round of the outer loop, line 111 to 146.\<close>

definition name_attr :: "project \<Rightarrow> json" where
  "name_attr p = JObj [(''value'', JStr (repo p)), (''source'', JStr [])]"

definition load_project :: "env \<Rightarrow> project \<Rightarrow> world \<times> builder \<Rightarrow> error + (world \<times> builder)" where
  "load_project e p st =
     (case fetch_descriptor e p of
        Inl x \<Rightarrow> Inl x
      | Inr cat_meta \<Rightarrow>
          (case catalog_setitem (catalog (snd st)) (repo p) ''name'' (name_attr p) of
             Inl x \<Rightarrow> Inl x
           | Inr c \<Rightarrow>
               (case cat_meta of
                  JObj items \<Rightarrow>
                    load_attrs e p items
                      (fst st,
                       (snd st)\<lparr>catalog := c,
                                repos := dict_set (repos (snd st)) (repo p) (repo_url p)\<rparr>)
                | _ \<Rightarrow> Inl AttributeError)))"

fun load_projects ::
  "env \<Rightarrow> project list \<Rightarrow> world \<times> builder \<Rightarrow> error + (world \<times> builder)" where
  "load_projects e [] st = Inr st"
| "load_projects e (p # ps) st =
     (case load_project e p st of Inl x \<Rightarrow> Inl x | Inr st' \<Rightarrow> load_projects e ps st')"

text \<open>The loop of replay mode, line 152 to 155.\<close>

fun link_repos :: "project list \<Rightarrow> (string \<times> string) list \<Rightarrow> (string \<times> string) list" where
  "link_repos [] r = r"
| "link_repos (p # ps) r = link_repos ps (dict_set r (repo p) (repo_url p))"

text \<open>
  \<^verbatim>\<open>load_catalog(self)\<close>. \<^verbatim>\<open>sorted\<close> is stable, as \<^const>\<open>sort_key\<close> is, and compares
  the keys \<^verbatim>\<open>x["repo"].upper()\<close> as strings of code points, which is the order of
  the lists \<open>py_upper (repo x)\<close>.
\<close>

definition load_catalog :: "env \<Rightarrow> world \<Rightarrow> builder \<Rightarrow> error + (world \<times> builder)" where
  "load_catalog e w b =
     (if \<not> develop b then
        load_projects e (sort_key (\<lambda>x. py_upper (repo x)) (projects b)) (w, b)
      else
        (let w1 = print w ''Develop mode. Loading Catalog from catalog.json'';
             json_path = os_path_join (index_dir b) ''catalog.json''
         in case read_file w1 json_path of
              Inl x \<Rightarrow> Inl x
            | Inr text \<Rightarrow>
                (case json_loads text of
                   Inl x \<Rightarrow> Inl x
                 | Inr j \<Rightarrow>
                     Inr (print w1 ''Catalog Loaded'',
                          b\<lparr>catalog := Loaded j,
                            repos := link_repos (projects b) (repos b)\<rparr>))))"

subsection \<open>\<^verbatim>\<open>dump_catalog\<close>\<close>

definition dump_catalog :: "world \<Rightarrow> builder \<Rightarrow> string option \<Rightarrow> error + (world \<times> string)" where
  "dump_catalog w b output_path =
     (let cat_json = json_dumps 4 (catalog_json (catalog b))
      in case output_path of
           None \<Rightarrow> Inr (w, cat_json)
         | Some path \<Rightarrow>
             if can_write w path then Inr (w\<lparr>files := (files w)(path \<mapsto> cat_json)\<rparr>, cat_json)
             else Inl (OSError path))"

subsection \<open>Reading the catalog\<close>

text \<open>
  \<open>catalog_get c r a\<close> is \<^verbatim>\<open>c[r][a]\<close> where both keys are there, \<open>catalog_keys\<close> the
  keys of the catalog in their order.
\<close>

definition obj_get :: "json \<Rightarrow> string \<Rightarrow> json option" where
  "obj_get j k = (case j of JObj kvs \<Rightarrow> map_of kvs k | _ \<Rightarrow> None)"

definition catalog_get :: "catalog \<Rightarrow> string \<Rightarrow> string \<Rightarrow> json option" where
  "catalog_get c r a =
     (case obj_get (catalog_json c) r of None \<Rightarrow> None | Some entry \<Rightarrow> obj_get entry a)"






text \<open>
  Every dictionary of a JSON value has pairwise distinct keys. Python's \<^verbatim>\<open>dict\<close> has
  this by construction; for the association lists of the model it is a condition.
\<close>

fun wf_json :: "json \<Rightarrow> bool"
  and wf_list :: "json list \<Rightarrow> bool"
  and wf_dict :: "(string \<times> json) list \<Rightarrow> bool"
where
  "wf_json JNull = True"
| "wf_json (JBool b) = True"
| "wf_json (JInt i) = True"
| "wf_json (JStr s) = True"
| "wf_json (JArr xs) = wf_list xs"
| "wf_json (JObj kvs) = (distinct (map fst kvs) \<and> wf_dict kvs)"
| "wf_list [] = True"
| "wf_list (x # xs) = (wf_json x \<and> wf_list xs)"
| "wf_dict [] = True"
| "wf_dict (kv # kvs) = (wf_json (snd kv) \<and> wf_dict kvs)"



subsection \<open>The file-region fetch of \<^verbatim>\<open>utils\<close>\<close>

text \<open>
  Modelled from the spec: \<^verbatim>\<open>str.find\<close>, the index of the first occurrence of a
  marker in a text, which the extraction of section 4.3 of the specification locates
  ("the first occurrence of the start marker").
\<close>

fun find_sub :: "string \<Rightarrow> string \<Rightarrow> nat option" where
  "find_sub pat [] = (if pat = [] then Some 0 else None)"
| "find_sub pat (c # cs) =
     (if prefix pat (c # cs) then Some 0 else map_option Suc (find_sub pat cs))"


text \<open>
  Modelled from the spec: the extraction of section 4.3, "locate the first occurrence
  of the start marker and the first occurrence of the end marker after it, extract the
  text strictly between them". The code of \<^verbatim>\<open>utils\<close> that does this is not among the
  sources. The specification leaves open what happens when a marker is absent; the
  model has no value there.
\<close>

definition text_between :: "string \<Rightarrow> string \<Rightarrow> string \<Rightarrow> string option" where
  "text_between start_marker end_marker doc =
     (case find_sub start_marker doc of
        None \<Rightarrow> None
      | Some i \<Rightarrow>
          (let after = drop (i + length start_marker) doc
           in case find_sub end_marker after of
                None \<Rightarrow> None
              | Some j \<Rightarrow> Some (take j after)))"


text \<open>
  Modelled from the spec: \<^verbatim>\<open>utils.get_from_github_api(project, config)\<close>, which is
  not among the sources. By section 4.3 and section 6 of the specification it fetches
  the full text of the file \<^verbatim>\<open>config["source"]\<close> of the project's repository and
  branch, and returns the text between the markers \<^verbatim>\<open>config["start_header"]\<close> and
  \<^verbatim>\<open>config["end_header"]\<close>. A descriptor without these three strings, and a text
  without the markers, are outside what the specification fixes.
\<close>

definition get_from_github_api ::
  "(string \<Rightarrow> string \<Rightarrow> string \<Rightarrow> string \<Rightarrow> error + string) \<Rightarrow> project
     \<Rightarrow> (string \<times> json) list \<Rightarrow> error + json" where
  "get_from_github_api fetch p config =
     (case (map_of config ''source'', map_of config ''start_header'', map_of config ''end_header'') of
        (Some (JStr path), Some (JStr start_marker), Some (JStr end_marker)) \<Rightarrow>
          (case fetch (org p) (repo p) (branch p) path of
             Inl x \<Rightarrow> Inl x
           | Inr doc \<Rightarrow>
               (case text_between start_marker end_marker doc of
                  None \<Rightarrow> Inl Unmodelled
                | Some v \<Rightarrow> Inr (JStr v)))
      | _ \<Rightarrow> Inl Unmodelled)"


text \<open>
  Modelled from the spec: the environment in which \<^verbatim>\<open>utils.get_from_github_api\<close> is
  the function above, over a given raw fetch.
\<close>

definition hosting_env ::
  "string \<Rightarrow> (string \<Rightarrow> string \<Rightarrow> string \<Rightarrow> string \<Rightarrow> error + string) \<Rightarrow> env" where
  "hosting_env cp fetch =
     \<lparr>current_path = cp, raw_file = fetch, file_region = get_from_github_api fetch\<rparr>"


subsection \<open>Concrete inputs\<close>

text \<open>Inputs on which the theorems below are instantiated.\<close>

definition no_network :: env where
  "no_network = \<lparr>current_path = ''/srv/Catalog/catalog_builder'',
                  raw_file = (\<lambda>_ _ _ _. Inl (RemoteError ''offline'')),
                  file_region = (\<lambda>_ _. Inl (RemoteError ''offline''))\<rparr>"

definition empty_world :: world where
  "empty_world = \<lparr>files = Map.empty, can_write = (\<lambda>_. True), stdout = []\<rparr>"

definition registry3 :: "project list" where
  "registry3 = [\<lparr>org = ''PSLmodels'', repo = ''alpha'', branch = ''master''\<rparr>,
                \<lparr>org = ''PSLmodels'', repo = ''beta'', branch = ''master''\<rparr>,
                \<lparr>org = ''PSLmodels'', repo = ''gamma'', branch = ''master''\<rparr>]"

definition registry_dup :: "project list" where
  "registry_dup = [\<lparr>org = ''PSLmodels'', repo = ''alpha'', branch = ''master''\<rparr>,
                   \<lparr>org = ''PSLmodels'', repo = ''beta'', branch = ''master''\<rparr>,
                   \<lparr>org = ''fork'', repo = ''beta'', branch = ''dev''\<rparr>]"

text \<open>A string between double quotes, to write JSON texts down.\<close>

definition q :: "string \<Rightarrow> string" where
  "q s = dquote # s @ [dquote]"

definition replay_text :: string where
  "replay_text =
     ''{'' @ q ''Tax-Calculator'' @ '': {'' @ q ''project_overview'' @ '': {''
       @ q ''value'' @ '': '' @ q ''<p>Overview</p>'' @ '', '' @ q ''source'' @ '': null}}}''"

definition replay_world :: world where
  "replay_world = \<lparr>files = [''/srv/site/catalog.json'' \<mapsto> replay_text],
                    can_write = (\<lambda>_. True), stdout = []\<rparr>"

definition replay_builder :: builder where
  "replay_builder = \<lparr>projects = registry3, index_dir = ''/srv/site'',
                      catalog = DefaultDict [], repos = [], develop = True\<rparr>"


definition demo_descriptor :: string where
  "demo_descriptor = ''{'' @ q ''project_overview'' @ '': {'' @ q ''type'' @ '': '' @ q ''unknown'' @ ''}}''"

definition demo_env :: env where
  "demo_env = \<lparr>current_path = ''/srv/Catalog/catalog_builder'',
                raw_file = (\<lambda>_ _ _ _. Inr demo_descriptor),
                file_region = (\<lambda>_ _. Inl (RemoteError ''offline''))\<rparr>"

definition demo_projects :: "project list" where
  "demo_projects = [\<lparr>org = ''PSLmodels'', repo = ''zeta'', branch = ''master''\<rparr>,
                    \<lparr>org = ''PSLmodels'', repo = ''Alpha'', branch = ''master''\<rparr>,
                    \<lparr>org = ''PSLmodels'', repo = ''beta'', branch = ''master''\<rparr>]"

definition demo_builder :: builder where
  "demo_builder = \<lparr>projects = demo_projects, index_dir = ''/srv/site'',
                    catalog = DefaultDict [], repos = [], develop = False\<rparr>"

definition clash_descriptor :: string where
  "clash_descriptor =
     ''{'' @ q ''name'' @ '': {'' @ q ''type'' @ '': '' @ q ''html'' @ '', '' @ q ''source''
       @ '': '' @ q ''README.md'' @ '', '' @ q ''data'' @ '': '' @ q ''<b>Other</b>'' @ ''}}''"

definition clash_env :: env where
  "clash_env = \<lparr>current_path = ''/srv/Catalog/catalog_builder'',
                 raw_file = (\<lambda>_ _ _ _. Inr clash_descriptor),
                 file_region = (\<lambda>_ _. Inl (RemoteError ''offline''))\<rparr>"

definition clash_builder :: builder where
  "clash_builder = \<lparr>projects = [\<lparr>org = ''PSLmodels'', repo = ''Tax-Calculator'', branch = ''master''\<rparr>],
                     index_dir = ''/srv/site'', catalog = DefaultDict [], repos = [], develop = False\<rparr>"



definition demo_out :: world where
  "demo_out = empty_world\<lparr>stdout :=
     [''MISSING DATA: Alpha, entry: project_overview, {'' @ [squote] @ ''type'' @ [squote]
        @ '': '' @ [squote] @ ''unknown'' @ [squote] @ ''}'',
      ''MISSING DATA: beta, entry: project_overview, {'' @ [squote] @ ''type'' @ [squote]
        @ '': '' @ [squote] @ ''unknown'' @ [squote] @ ''}'',
      ''MISSING DATA: zeta, entry: project_overview, {'' @ [squote] @ ''type'' @ [squote]
        @ '': '' @ [squote] @ ''unknown'' @ [squote] @ ''}'']\<rparr>"

definition demo_result :: builder where
  "demo_result = demo_builder\<lparr>catalog := DefaultDict
      [(''Alpha'', JObj [(''name'', JObj [(''value'', JStr ''Alpha''), (''source'', JStr [])]),
                         (''project_overview'', JObj [(''source'', JNull), (''value'', JNull)])]),
       (''beta'', JObj [(''name'', JObj [(''value'', JStr ''beta''), (''source'', JStr [])]),
                        (''project_overview'', JObj [(''source'', JNull), (''value'', JNull)])]),
       (''zeta'', JObj [(''name'', JObj [(''value'', JStr ''zeta''), (''source'', JStr [])]),
                        (''project_overview'', JObj [(''source'', JNull), (''value'', JNull)])])],
    repos := [(''Alpha'', ''https://github.com/PSLmodels/Alpha''),
              (''beta'', ''https://github.com/PSLmodels/beta''),
              (''zeta'', ''https://github.com/PSLmodels/zeta'')]\<rparr>"

definition clash_result :: builder where
  "clash_result = clash_builder\<lparr>catalog := DefaultDict
      [(''Tax-Calculator'',
        JObj [(''name'', JObj [(''source'', JStr ''README.md''),
                               (''value'', JStr ''<b>Other</b>'')])])],
    repos := [(''Tax-Calculator'', ''https://github.com/PSLmodels/Tax-Calculator'')]\<rparr>"


definition clash_text :: string where
  "clash_text =
     ''{'' @ [newline]
     @ ''    '' @ q ''Tax-Calculator'' @ '': {'' @ [newline]
     @ ''        '' @ q ''name'' @ '': {'' @ [newline]
     @ ''            '' @ q ''source'' @ '': '' @ q ''README.md'' @ '','' @ [newline]
     @ ''            '' @ q ''value'' @ '': '' @ q ''<b>Other</b>'' @ [newline]
     @ ''        }'' @ [newline]
     @ ''    }'' @ [newline]
     @ ''}''"


definition readme_fetch :: "string \<Rightarrow> string \<Rightarrow> string \<Rightarrow> string \<Rightarrow> error + string" where
  "readme_fetch a b c path =
     (if path = ''README.md''
      then Inr (''...START'' @ [newline] @ ''HELLO'' @ [newline] @ ''END...'')
      else Inl (RemoteError path))"

definition region_config :: "(string \<times> json) list" where
  "region_config = [(''type'', JStr ''github_file''), (''source'', JStr ''README.md''),
                    (''start_header'', JStr ''START''), (''end_header'', JStr ''END'')]"






section \<open>The constructor's single-project filter\<close>

lemma find_project_Some:
  "find_project ps name = Some p \<longleftrightarrow>
     (\<exists>pre post. ps = pre @ p # post \<and> repo p = name \<and> (\<forall>q\<in>set pre. repo q \<noteq> name))"
proof (induction ps)
  case Nil
  then show ?case by simp
next
  case (Cons a ps)
  show ?case
  proof (cases "repo a = name")
    case True
    have "(\<exists>pre post. a # ps = pre @ p # post \<and> repo p = name \<and> (\<forall>q\<in>set pre. repo q \<noteq> name))
            \<longleftrightarrow> a = p"
    proof
      assume "\<exists>pre post. a # ps = pre @ p # post \<and> repo p = name \<and> (\<forall>q\<in>set pre. repo q \<noteq> name)"
      then obtain pre post where h: "a # ps = pre @ p # post" "\<forall>q\<in>set pre. repo q \<noteq> name"
        by blast
      show "a = p"
      proof (cases pre)
        case Nil
        with h show ?thesis by simp
      next
        case (Cons x xs)
        with h True show ?thesis by auto
      qed
    next
      assume "a = p"
      with True have "a # ps = [] @ p # ps \<and> repo p = name \<and> (\<forall>q\<in>set []. repo q \<noteq> name)"
        by simp
      then show "\<exists>pre post. a # ps = pre @ p # post \<and> repo p = name \<and> (\<forall>q\<in>set pre. repo q \<noteq> name)"
        by blast
    qed
    with True show ?thesis by simp
  next
    case False
    have "(\<exists>pre post. a # ps = pre @ p # post \<and> repo p = name \<and> (\<forall>q\<in>set pre. repo q \<noteq> name))
            \<longleftrightarrow> (\<exists>pre post. ps = pre @ p # post \<and> repo p = name \<and> (\<forall>q\<in>set pre. repo q \<noteq> name))"
    proof
      assume "\<exists>pre post. a # ps = pre @ p # post \<and> repo p = name \<and> (\<forall>q\<in>set pre. repo q \<noteq> name)"
      then obtain pre post where h: "a # ps = pre @ p # post" "repo p = name" "\<forall>q\<in>set pre. repo q \<noteq> name"
        by blast
      show "\<exists>pre post. ps = pre @ p # post \<and> repo p = name \<and> (\<forall>q\<in>set pre. repo q \<noteq> name)"
      proof (cases pre)
        case Nil
        with h False show ?thesis by simp
      next
        case (Cons x xs)
        with h have "ps = xs @ p # post \<and> repo p = name \<and> (\<forall>q\<in>set xs. repo q \<noteq> name)" by simp
        then show ?thesis by blast
      qed
    next
      assume "\<exists>pre post. ps = pre @ p # post \<and> repo p = name \<and> (\<forall>q\<in>set pre. repo q \<noteq> name)"
      then obtain pre post where h: "ps = pre @ p # post" "repo p = name" "\<forall>q\<in>set pre. repo q \<noteq> name"
        by blast
      with False have "a # ps = (a # pre) @ p # post \<and> repo p = name \<and> (\<forall>q\<in>set (a # pre). repo q \<noteq> name)"
        by simp
      then show "\<exists>pre post. a # ps = pre @ p # post \<and> repo p = name \<and> (\<forall>q\<in>set pre. repo q \<noteq> name)"
        by blast
    qed
    with False Cons.IH show ?thesis by simp
  qed
qed

lemma find_project_None: "find_project ps name = None \<longleftrightarrow> (\<forall>p\<in>set ps. repo p \<noteq> name)"
  by (induction ps) auto

lemma find_project_mem: "find_project ps name = Some p \<Longrightarrow> p \<in> set ps \<and> repo p = name"
  by (induction ps) (auto split: if_splits)

lemma init_filter_found:
  assumes "(case projects_arg of None \<Rightarrow> read_register e w | Some given \<Rightarrow> Inr given) = Inr ps"
    and "find_project ps name = Some p"
  shows "\<exists>b. init e w projects_arg idx dev (Some name) = Inr b \<and> projects b = [p]"
  using assms by (simp add: init_def Let_def)

lemma init_filter_missing:
  assumes "(case projects_arg of None \<Rightarrow> read_register e w | Some given \<Rightarrow> Inr given) = Inr ps"
    and "find_project ps name = None"
  shows "init e w projects_arg idx dev (Some name)
           = Inl (ProjectDoesNotExist (name @ '' is not in register.json or projects if provided.''))"
  using assms by (simp add: init_def Let_def)

text \<open>
  Claim C3. With a single-project filter, the constructor replaces the project list by
  the singleton list of a project of the list that has the given repository name, when
  there is one; when there is none it raises \<^verbatim>\<open>ProjectDoesNotExist\<close> and no builder
  is made. The project list is the one given, or the one read from the registry file.
\<close>

theorem init_build_one:
  assumes "(case projects_arg of None \<Rightarrow> read_register e w | Some given \<Rightarrow> Inr given) = Inr ps"
  shows "((\<exists>p\<in>set ps. repo p = name) \<longrightarrow>
            (\<exists>b p. init e w projects_arg idx dev (Some name) = Inr b
                   \<and> projects b = [p] \<and> p \<in> set ps \<and> repo p = name))
       \<and> ((\<forall>p\<in>set ps. repo p \<noteq> name) \<longrightarrow>
            init e w projects_arg idx dev (Some name)
              = Inl (ProjectDoesNotExist
                       (name @ '' is not in register.json or projects if provided.'')))"
proof (intro conjI impI)
  assume "\<exists>p\<in>set ps. repo p = name"
  then have "find_project ps name \<noteq> None"
    by (simp add: find_project_None)
  then obtain p where p: "find_project ps name = Some p"
    by blast
  from init_filter_found [OF assms p]
  obtain b where "init e w projects_arg idx dev (Some name) = Inr b" "projects b = [p]"
    by blast
  with find_project_mem [OF p]
  show "\<exists>b p. init e w projects_arg idx dev (Some name) = Inr b
                   \<and> projects b = [p] \<and> p \<in> set ps \<and> repo p = name"
    by blast
next
  assume "\<forall>p\<in>set ps. repo p \<noteq> name"
  then have "find_project ps name = None"
    by (simp add: find_project_None)
  from init_filter_missing [OF assms this]
  show "init e w projects_arg idx dev (Some name)
          = Inl (ProjectDoesNotExist (name @ '' is not in register.json or projects if provided.''))" .
qed

theorem init_build_one_witness:
  "(\<exists>b. init no_network empty_world (Some registry3) None False (Some ''beta'') = Inr b
        \<and> projects b = [\<lparr>org = ''PSLmodels'', repo = ''beta'', branch = ''master''\<rparr>])
   \<and> init no_network empty_world (Some registry3) None False (Some ''delta'')
       = Inl (ProjectDoesNotExist ''delta is not in register.json or projects if provided.'')"
  using init_build_one [where projects_arg = "Some registry3" and e = no_network
                          and w = empty_world and ps = registry3 and name = "''beta''"
                          and idx = None and dev = False]
        init_build_one [where projects_arg = "Some registry3" and e = no_network
                          and w = empty_world and ps = registry3 and name = "''delta''"
                          and idx = None and dev = False]
  by (auto simp: registry3_def)

text \<open>
  Claim C9. When several projects of the list have the repository name of the filter,
  the constructor succeeds and the project list becomes the singleton list of the
  first of them in the order of the list; what follows it, further projects of that
  name included, is dropped.
\<close>

theorem init_build_one_first:
  assumes "(case projects_arg of None \<Rightarrow> read_register e w | Some given \<Rightarrow> Inr given)
             = Inr (pre @ p # post)"
    and "repo p = name"
    and "\<forall>q\<in>set pre. repo q \<noteq> name"
  shows "\<exists>b. init e w projects_arg idx dev (Some name) = Inr b \<and> projects b = [p]"
proof -
  have "find_project (pre @ p # post) name = Some p"
    using assms(2,3) find_project_Some by blast
  from init_filter_found [OF assms(1) this] show ?thesis .
qed


theorem init_build_one_first_witness:
  "\<exists>b. init no_network empty_world (Some registry_dup) None False (Some ''beta'') = Inr b
       \<and> projects b = [\<lparr>org = ''PSLmodels'', repo = ''beta'', branch = ''master''\<rparr>]"
  using init_build_one_first
          [where projects_arg = "Some registry_dup" and e = no_network and w = empty_world
             and pre = "[\<lparr>org = ''PSLmodels'', repo = ''alpha'', branch = ''master''\<rparr>]"
             and p = "\<lparr>org = ''PSLmodels'', repo = ''beta'', branch = ''master''\<rparr>"
             and post = "[\<lparr>org = ''fork'', repo = ''beta'', branch = ''dev''\<rparr>]"
             and name = "''beta''" and idx = None and dev = False]
  by (simp add: registry_dup_def)


section \<open>Replay mode\<close>

lemma dict_set_fresh: "k \<notin> fst ` set d \<Longrightarrow> dict_set d k v = d @ [(k, v)]"
  by (induction d) auto

lemma link_repos_distinct:
  "distinct (map repo ps) \<Longrightarrow> repo ` set ps \<inter> fst ` set r = {} \<Longrightarrow>
     link_repos ps r = r @ map (\<lambda>p. (repo p, repo_url p)) ps"
proof (induction ps arbitrary: r)
  case Nil
  then show ?case by simp
next
  case (Cons p ps)
  from Cons.prems have fresh: "repo p \<notin> fst ` set r" by auto
  have "repo ` set ps \<inter> fst ` set (r @ [(repo p, repo_url p)]) = {}"
    using Cons.prems by auto
  with Cons.IH [of "r @ [(repo p, repo_url p)]"] Cons.prems
  have "link_repos ps (r @ [(repo p, repo_url p)])
          = (r @ [(repo p, repo_url p)]) @ map (\<lambda>p. (repo p, repo_url p)) ps"
    by simp
  with fresh show ?case by (simp add: dict_set_fresh)
qed

lemma load_catalog_develop:
  assumes "develop b"
    and "files w (os_path_join (index_dir b) ''catalog.json'') = Some doc"
    and "json_loads doc = Inr j"
  shows "load_catalog e w b
           = Inr (print (print w ''Develop mode. Loading Catalog from catalog.json'') ''Catalog Loaded'',
                  b\<lparr>catalog := Loaded j, repos := link_repos (projects b) (repos b)\<rparr>)"
  using assms by (simp add: load_catalog_def Let_def read_file_def print_def)

text \<open>
  Claim C6. A replay-mode run over projects with pairwise distinct repository names,
  started with an empty repo link table (as the constructor leaves it) and with a
  readable \<^verbatim>\<open>catalog.json\<close>, returns, and the table then has exactly one entry per
  project, in the order of the list: the repository name with
  \<^verbatim>\<open>https://github.com/{org}/{repo}\<close>.
\<close>

theorem replay_repo_links:
  assumes "develop b"
    and "repos b = []"
    and "distinct (map repo (projects b))"
    and "files w (os_path_join (index_dir b) ''catalog.json'') = Some doc"
    and "json_loads doc = Inr j"
  shows "\<exists>w' b'. load_catalog e w b = Inr (w', b')
           \<and> repos b' = map (\<lambda>p. (repo p, ''https://github.com/'' @ org p @ ''/'' @ repo p))
                             (projects b)"
proof -
  have "link_repos (projects b) (repos b) = map (\<lambda>p. (repo p, repo_url p)) (projects b)"
    using link_repos_distinct [of "projects b" "[]"] assms(2,3) by simp
  then show ?thesis
    using load_catalog_develop [OF assms(1,4,5), of e] by (simp add: repo_url_def)
qed

lemma replay_text_loads:
  "json_loads replay_text
     = Inr (JObj [(''Tax-Calculator'',
                   JObj [(''project_overview'',
                          JObj [(''value'', JStr ''<p>Overview</p>''), (''source'', JNull)])])])"
  by code_simp

theorem replay_repo_links_witness:
  "\<exists>w' b'. load_catalog no_network replay_world replay_builder = Inr (w', b')
     \<and> repos b' = [(''alpha'', ''https://github.com/PSLmodels/alpha''),
                   (''beta'', ''https://github.com/PSLmodels/beta''),
                   (''gamma'', ''https://github.com/PSLmodels/gamma'')]"
  using replay_repo_links [where b = replay_builder and w = replay_world and e = no_network
                             and doc = replay_text, OF _ _ _ _ replay_text_loads]
  by (simp add: replay_builder_def replay_world_def registry3_def os_path_join_def)

text \<open>
  Claim C10. In replay mode \<^verbatim>\<open>load_catalog\<close> sets the catalog to exactly what
  \<^verbatim>\<open>json.load\<close> returns for \<^verbatim>\<open>catalog.json\<close>; nothing is normalised, checked or
  added, so an entry without a \<^verbatim>\<open>name\<close> attribute in the file has none after
  loading.
\<close>

theorem replay_catalog_verbatim:
  assumes "develop b"
    and "files w (os_path_join (index_dir b) ''catalog.json'') = Some doc"
    and "json_loads doc = Inr j"
  shows "\<exists>w' b'. load_catalog e w b = Inr (w', b') \<and> catalog b' = Loaded j
           \<and> catalog_json (catalog b') = j
           \<and> (\<forall>r entry. obj_get j r = Some entry \<and> obj_get entry ''name'' = None
                 \<longrightarrow> catalog_get (catalog b') r ''name'' = None)"
  using load_catalog_develop [OF assms, of e]
  by (auto simp: catalog_json_def catalog_get_def)

theorem replay_catalog_verbatim_witness:
  "\<exists>w' b'. load_catalog no_network replay_world replay_builder = Inr (w', b')
     \<and> catalog b' = Loaded (JObj [(''Tax-Calculator'',
                   JObj [(''project_overview'',
                          JObj [(''value'', JStr ''<p>Overview</p>''), (''source'', JNull)])])])
     \<and> catalog_get (catalog b') ''Tax-Calculator'' ''name'' = None"
proof -
  have d: "develop replay_builder"
    by (simp add: replay_builder_def)
  have f: "files replay_world (os_path_join (index_dir replay_builder) ''catalog.json'')
             = Some replay_text"
    by (simp add: replay_builder_def replay_world_def os_path_join_def)
  from replay_catalog_verbatim [OF d f replay_text_loads, of no_network]
  obtain w' b' where
    r: "load_catalog no_network replay_world replay_builder = Inr (w', b')"
      "catalog b' = Loaded (JObj [(''Tax-Calculator'',
                   JObj [(''project_overview'',
                          JObj [(''value'', JStr ''<p>Overview</p>''), (''source'', JNull)])])])"
    by blast
  then have "catalog_get (catalog b') ''Tax-Calculator'' ''name'' = None"
    by (simp add: catalog_get_def catalog_json_def obj_get_def)
  with r show ?thesis by blast
qed


section \<open>Network mode\<close>

lemma map_of_dict_set: "map_of (dict_set d k v) = (map_of d)(k \<mapsto> v)"
  by (induction d) (auto simp: fun_eq_iff)




lemma catalog_setitem_get:
  assumes "catalog_setitem c r a v = Inr c'"
  shows "catalog_get c' r' a' = (if r' = r \<and> a' = a then Some v else catalog_get c r' a')"
proof (cases c)
  case (DefaultDict d)
  show ?thesis
  proof (cases "map_of d r")
    case None
    with DefaultDict assms have "c' = DefaultDict (dict_set d r (JObj [(a, v)]))"
      by (auto simp: catalog_setitem_def setitem_def)
    with None DefaultDict show ?thesis
      by (simp add: catalog_get_def catalog_json_def obj_get_def map_of_dict_set)
  next
    case (Some entry)
    with DefaultDict assms obtain kvs where
      "entry = JObj kvs" "c' = DefaultDict (dict_set d r (JObj (dict_set kvs a v)))"
      by (auto simp: catalog_setitem_def setitem_def split: json.splits)
    with Some DefaultDict show ?thesis
      by (simp add: catalog_get_def catalog_json_def obj_get_def map_of_dict_set)
  qed
next
  case (Loaded j)
  with assms obtain d kvs where
    "j = JObj d" "map_of d r = Some (JObj kvs)" "c' = Loaded (JObj (dict_set d r (JObj (dict_set kvs a v))))"
    by (auto simp: catalog_setitem_def setitem_def getitem_def split: json.splits option.splits)
  with Loaded show ?thesis
    by (simp add: catalog_get_def catalog_json_def obj_get_def map_of_dict_set)
qed








lemma load_attr_Inr:
  assumes "load_attr e p ac st = Inr st'"
  shows "\<exists>v. catalog_setitem (catalog (snd st)) (repo p) (fst ac) v = Inr (catalog (snd st'))"
  using assms by (auto simp: load_attr_def split: sum.splits prod.splits)

lemma load_attrs_get:
  "load_attrs e p items st = Inr st' \<Longrightarrow> r \<noteq> repo p \<or> a \<notin> fst ` set items \<Longrightarrow>
     catalog_get (catalog (snd st')) r a = catalog_get (catalog (snd st)) r a"
proof (induction items arbitrary: st)
  case Nil
  then show ?case by simp
next
  case (Cons ac items)
  from Cons.prems(1) obtain st1 where
    s: "load_attr e p ac st = Inr st1" "load_attrs e p items st1 = Inr st'"
    by (auto split: sum.splits)
  from load_attr_Inr [OF s(1)] obtain v where
    "catalog_setitem (catalog (snd st)) (repo p) (fst ac) v = Inr (catalog (snd st1))"
    by blast
  from catalog_setitem_get [OF this, of r a] Cons.prems(2)
  have "catalog_get (catalog (snd st1)) r a = catalog_get (catalog (snd st)) r a"
    by auto
  moreover have "catalog_get (catalog (snd st')) r a = catalog_get (catalog (snd st1)) r a"
    using Cons.IH [OF s(2)] Cons.prems(2) by auto
  ultimately show ?case by simp
qed


lemma load_project_Inr:
  assumes "load_project e p st = Inr st'"
  shows "\<exists>items c. fetch_descriptor e p = Inr (JObj items)
           \<and> catalog_setitem (catalog (snd st)) (repo p) ''name'' (name_attr p) = Inr c
           \<and> load_attrs e p items
                (fst st, (snd st)\<lparr>catalog := c,
                                  repos := dict_set (repos (snd st)) (repo p) (repo_url p)\<rparr>)
               = Inr st'"
  using assms by (auto simp: load_project_def split: sum.splits json.splits)


lemma load_project_get_other:
  assumes "load_project e p st = Inr st'" and "r \<noteq> repo p"
  shows "catalog_get (catalog (snd st')) r a = catalog_get (catalog (snd st)) r a"
proof -
  from load_project_Inr [OF assms(1)] obtain items c where
    h: "catalog_setitem (catalog (snd st)) (repo p) ''name'' (name_attr p) = Inr c"
       "load_attrs e p items
          (fst st, (snd st)\<lparr>catalog := c,
                            repos := dict_set (repos (snd st)) (repo p) (repo_url p)\<rparr>)
         = Inr st'"
    by blast
  from load_attrs_get [OF h(2), of r a] assms(2)
  have "catalog_get (catalog (snd st')) r a = catalog_get c r a" by simp
  with catalog_setitem_get [OF h(1), of r a] assms(2) show ?thesis by simp
qed

lemma load_project_name:
  assumes "load_project e p st = Inr st'"
    and "\<forall>d. fetch_descriptor e p = Inr d \<longrightarrow> obj_get d ''name'' = None"
  shows "catalog_get (catalog (snd st')) (repo p) ''name'' = Some (name_attr p)"
proof -
  from load_project_Inr [OF assms(1)] obtain items c where
    h: "fetch_descriptor e p = Inr (JObj items)"
       "catalog_setitem (catalog (snd st)) (repo p) ''name'' (name_attr p) = Inr c"
       "load_attrs e p items
          (fst st, (snd st)\<lparr>catalog := c,
                            repos := dict_set (repos (snd st)) (repo p) (repo_url p)\<rparr>)
         = Inr st'"
    by blast
  from assms(2) h(1) have "map_of items ''name'' = None"
    by (simp add: obj_get_def)
  then have "''name'' \<notin> fst ` set items"
    by (simp add: map_of_eq_None_iff)
  with load_attrs_get [OF h(3), of "repo p" "''name''"]
  have "catalog_get (catalog (snd st')) (repo p) ''name'' = catalog_get c (repo p) ''name''"
    by simp
  with catalog_setitem_get [OF h(2), of "repo p" "''name''"] show ?thesis by simp
qed

lemma load_projects_name:
  "load_projects e ps st = Inr st' \<Longrightarrow>
   \<forall>x\<in>set ps. repo x = repo p \<longrightarrow> (\<forall>d. fetch_descriptor e x = Inr d \<longrightarrow> obj_get d ''name'' = None) \<Longrightarrow>
   (\<exists>x\<in>set ps. repo x = repo p) \<or> catalog_get (catalog (snd st)) (repo p) ''name'' = Some (name_attr p) \<Longrightarrow>
   catalog_get (catalog (snd st')) (repo p) ''name'' = Some (name_attr p)"
proof (induction ps arbitrary: st)
  case Nil
  then show ?case by simp
next
  case (Cons x ps)
  from Cons.prems(1) obtain st1 where
    s: "load_project e x st = Inr st1" "load_projects e ps st1 = Inr st'"
    by (auto split: sum.splits)
  have "(\<exists>y\<in>set ps. repo y = repo p)
          \<or> catalog_get (catalog (snd st1)) (repo p) ''name'' = Some (name_attr p)"
  proof (cases "repo x = repo p")
    case True
    with Cons.prems(2) have "\<forall>d. fetch_descriptor e x = Inr d \<longrightarrow> obj_get d ''name'' = None"
      by simp
    from load_project_name [OF s(1) this] True show ?thesis
      by (simp add: name_attr_def)
  next
    case False
    with load_project_get_other [OF s(1), of "repo p" "''name''"] Cons.prems(3)
    show ?thesis by auto
  qed
  with Cons.IH [OF s(2)] Cons.prems(2) show ?case by simp
qed






lemma demo_descriptor_loads:
  "json_loads demo_descriptor
     = Inr (JObj [(''project_overview'', JObj [(''type'', JStr ''unknown'')])])"
  by code_simp

lemma clash_descriptor_loads:
  "json_loads clash_descriptor
     = Inr (JObj [(''name'', JObj [(''type'', JStr ''html''), (''source'', JStr ''README.md''),
                                   (''data'', JStr ''<b>Other</b>'')])])"
  by code_simp

lemma demo_sorted:
  "sort_key (\<lambda>x. py_upper (repo x)) demo_projects
     = [\<lparr>org = ''PSLmodels'', repo = ''Alpha'', branch = ''master''\<rparr>,
        \<lparr>org = ''PSLmodels'', repo = ''beta'', branch = ''master''\<rparr>,
        \<lparr>org = ''PSLmodels'', repo = ''zeta'', branch = ''master''\<rparr>]"
  by code_simp

lemma unknown_repr:
  "py_repr (JObj [(''type'', JStr ''unknown'')])
     = ''{'' @ [squote] @ ''type'' @ [squote] @ '': '' @ [squote] @ ''unknown'' @ [squote] @ ''}''"
  by code_simp

lemma clash_run:
  "load_catalog clash_env empty_world clash_builder = Inr (empty_world, clash_result)"
  by (simp add: load_catalog_def clash_env_def clash_builder_def load_project_def
        fetch_descriptor_def clash_descriptor_loads catalog_setitem_def setitem_def name_attr_def
        load_attr_def resolve_attr_def getitem_def repo_url_def clash_result_def)

lemma demo_run:
  "load_catalog demo_env empty_world demo_builder = Inr (demo_out, demo_result)"
  by (simp add: load_catalog_def demo_builder_def demo_sorted load_project_def demo_env_def
        fetch_descriptor_def demo_descriptor_loads catalog_setitem_def setitem_def name_attr_def
        load_attr_def resolve_attr_def getitem_def repo_url_def missing_data_msg_def py_str_def
        unknown_repr print_def empty_world_def demo_out_def demo_result_def
        del: py_repr.simps)

lemma demo_fetch:
  "fetch_descriptor demo_env x
     = Inr (JObj [(''project_overview'', JObj [(''type'', JStr ''unknown'')])])"
  by (simp add: fetch_descriptor_def demo_env_def demo_descriptor_loads)






lemma py_upper_latin1:
  "py_upper [CHR 0xE9] = [201]" "py_upper [CHR 0xCB] = [203]" "py_upper [CHR 0xDF] = [83, 83]"
  "py_upper [CHR 0xB5] = [924]" "py_upper [CHR 0xFF] = [376]" "py_upper [CHR 0xF7] = [247]"
  "py_upper ''T'' = [84]"
  by (simp_all add: py_upper_def upper_points_def)




text \<open>
  Claim C1 says that the \<^verbatim>\<open>name\<close> attribute holds the repository name and an empty
  source whatever the descriptor contains. A descriptor with an attribute called
  \<^verbatim>\<open>name\<close> overwrites it: the inner loop stores every attribute of the descriptor
  after the \<^verbatim>\<open>name\<close> attribute was set.
\<close>

theorem name_attr_overwritten:
  "load_catalog clash_env empty_world clash_builder = Inr (empty_world, clash_result)
   \<and> catalog_get (catalog clash_result) ''Tax-Calculator'' ''name''
       = Some (JObj [(''source'', JStr ''README.md''), (''value'', JStr ''<b>Other</b>'')])
   \<and> catalog_get (catalog clash_result) ''Tax-Calculator'' ''name''
       \<noteq> Some (JObj [(''value'', JStr ''Tax-Calculator''), (''source'', JStr [])])"
  using clash_run
  by (simp add: clash_result_def catalog_get_def catalog_json_def obj_get_def)

text \<open>
  Claim C1, amended. In network mode, for every project processed by a run that
  returns, the catalog entry of the project has a \<^verbatim>\<open>name\<close> attribute whose value is
  the repository name and whose source is the empty string, provided that no
  descriptor fetched for a project of that repository name has an attribute called
  \<^verbatim>\<open>name\<close>.
\<close>

theorem name_attr_kept:
  assumes "\<not> develop b"
    and "load_catalog e w b = Inr (w', b')"
    and "p \<in> set (projects b)"
    and "\<forall>x\<in>set (projects b). repo x = repo p \<longrightarrow>
           (\<forall>d. fetch_descriptor e x = Inr d \<longrightarrow> obj_get d ''name'' = None)"
  shows "catalog_get (catalog b') (repo p) ''name''
           = Some (JObj [(''value'', JStr (repo p)), (''source'', JStr [])])"
proof -
  let ?ps = "sort_key (\<lambda>x. py_upper (repo x)) (projects b)"
  from assms(1,2) have run: "load_projects e ?ps (w, b) = Inr (w', b')"
    by (simp add: load_catalog_def)
  have "\<exists>x\<in>set ?ps. repo x = repo p"
    using assms(3) by auto
  moreover have "\<forall>x\<in>set ?ps. repo x = repo p \<longrightarrow>
           (\<forall>d. fetch_descriptor e x = Inr d \<longrightarrow> obj_get d ''name'' = None)"
    using assms(4) by simp
  ultimately show ?thesis
    using load_projects_name [OF run, of p] by (simp add: name_attr_def)
qed


theorem name_attr_kept_witness:
  "\<not> develop demo_builder
   \<and> load_catalog demo_env empty_world demo_builder = Inr (demo_out, demo_result)
   \<and> catalog_get (catalog demo_result) ''beta'' ''name''
       = Some (JObj [(''value'', JStr ''beta''), (''source'', JStr [])])"
proof -
  have d: "\<not> develop demo_builder"
    by (simp add: demo_builder_def)
  have m: "\<lparr>org = ''PSLmodels'', repo = ''beta'', branch = ''master''\<rparr> \<in> set (projects demo_builder)"
    by (simp add: demo_builder_def demo_projects_def)
  have n: "\<forall>x\<in>set (projects demo_builder).
             repo x = repo \<lparr>org = ''PSLmodels'', repo = ''beta'', branch = ''master''\<rparr> \<longrightarrow>
             (\<forall>d. fetch_descriptor demo_env x = Inr d \<longrightarrow> obj_get d ''name'' = None)"
    by (simp add: demo_fetch obj_get_def)
  from name_attr_kept [OF d demo_run m n] d demo_run show ?thesis
    by simp
qed



section \<open>The reader consumes its input and never runs out of fuel\<close>

lemma skip_ws_length: "length (skip_ws s) \<le> length s"
  by (simp add: skip_ws_def length_dropWhile_le)

lemma cons_result_Inr:
  "cons_result c x = Inr (s, r) \<Longrightarrow> \<exists>s'. x = Inr (s', r) \<and> s = c # s'"
  by (auto simp: cons_result_def split: sum.splits)

lemma scanstring_shorter: "scanstring s = Inr (str, r) \<Longrightarrow> length r < length s"
proof (induction "length s" arbitrary: s str rule: less_induct)
  case less
  from less.prems obtain c cs where s: "s = c # cs" by (cases s) auto
  show ?case
  proof (cases "c = dquote")
    case True
    with less.prems s show ?thesis by simp
  next
    case nq: False
    show ?thesis
    proof (cases "c = backslash")
      case False
      with nq less.prems s have "cons_result c (scanstring cs) = Inr (str, r)"
        by (auto split: if_splits)
      from cons_result_Inr [OF this] obtain s' where "scanstring cs = Inr (s', r)"
        by blast
      from less.hyps [OF _ this] s show ?thesis by simp
    next
      case True
      with nq less.prems s obtain e r0 where cs: "cs = e # r0"
        by (cases cs) auto
      show ?thesis
      proof (cases "e = CHR ''u''")
        case eu: True
        with True nq cs s less.prems
        have "\<exists>h1 h2 h3 h4 r' ch. r0 = h1 # h2 # h3 # h4 # r'
                \<and> cons_result ch (scanstring r') = Inr (str, r)"
          by (auto split: list.splits option.splits if_splits)
        then obtain h1 h2 h3 h4 r' ch where
          r0: "r0 = h1 # h2 # h3 # h4 # r'"
          and cr: "cons_result ch (scanstring r') = Inr (str, r)"
          by blast
        from cons_result_Inr [OF cr] obtain s' where "scanstring r' = Inr (s', r)" by blast
        from less.hyps [OF _ this] s cs r0 show ?thesis by simp
      next
        case False
        with True nq cs s less.prems
        have "\<exists>ch. cons_result ch (scanstring r0) = Inr (str, r)"
          by (auto split: option.splits)
        then obtain ch where cr: "cons_result ch (scanstring r0) = Inr (str, r)"
          by blast
        from cons_result_Inr [OF cr] obtain s' where "scanstring r0 = Inr (s', r)" by blast
        from less.hyps [OF _ this] s cs show ?thesis by simp
      qed
    qed
  qed
qed

lemma cons_result_fuel: "x \<noteq> Inl OutOfFuel \<Longrightarrow> cons_result c x \<noteq> Inl OutOfFuel"
  by (auto simp: cons_result_def split: sum.splits)


lemma match_number_fuel: "match_number s \<noteq> Inl OutOfFuel"
  by (simp add: match_number_def Let_def split: list.splits)


lemma scanstring_fuel: "scanstring s \<noteq> Inl OutOfFuel"
proof (induction "length s" arbitrary: s rule: less_induct)
  case less
  have a: "cons_result ch (scanstring t) \<noteq> Inl OutOfFuel" if "length t < length s" for ch t
    by (rule cons_result_fuel) (rule less.hyps [OF that])
  show ?case
  proof (cases s)
    case Nil
    then show ?thesis by simp
  next
    case (Cons c cs)
    consider (q) "c = dquote" | (b) "c \<noteq> dquote" "c = backslash"
      | (o) "c \<noteq> dquote" "c \<noteq> backslash" by blast
    then show ?thesis
    proof cases
      case q
      with Cons show ?thesis by simp
    next
      case o
      with Cons a [of cs c] show ?thesis by simp
    next
      case b
      show ?thesis
      proof (cases cs)
        case Nil
        with b Cons show ?thesis by simp
      next
        case cs: (Cons e r0)
        show ?thesis
        proof (cases "e = CHR ''u''")
          case False
          with b Cons cs a [of r0] show ?thesis
            by (simp split: option.splits)
        next
          case True
          show ?thesis
          proof (cases "\<exists>h1 h2 h3 h4 r'. r0 = h1 # h2 # h3 # h4 # r'")
            case False
            then have "(case r0 of h1 # h2 # h3 # h4 # r' \<Rightarrow> f h1 h2 h3 h4 r' | _ \<Rightarrow> Inl JSONDecodeError)
                         = Inl JSONDecodeError" for f :: "char \<Rightarrow> char \<Rightarrow> char \<Rightarrow> char \<Rightarrow> string \<Rightarrow> error + (string \<times> string)"
              by (auto split: list.splits)
            with b Cons cs True show ?thesis by simp
          next
            case ex: True
            then obtain h1 h2 h3 h4 r' where r0: "r0 = h1 # h2 # h3 # h4 # r'" by blast
            have "length r' < length s" using Cons cs r0 by simp
            from a [OF this] b Cons cs True r0 show ?thesis
              by (simp split: option.splits)
          qed
        qed
      qed
    qed
  qed
qed


lemma match_number_Inr:
  assumes "match_number s = Inr (v, r)"
  shows "(\<exists>i. v = JInt i) \<and> length r < length s"
proof -
  define neg where "neg = (case s of [] \<Rightarrow> False | c # _ \<Rightarrow> c = CHR ''-'')"
  define s1 where "s1 = (if neg then tl s else s)"
  have l1: "length s1 \<le> length s"
    by (simp add: s1_def)
  from assms have m: "(case s1 of
           [] \<Rightarrow> Inl JSONDecodeError
         | d # r \<Rightarrow>
             if \<not> is_digit d then
               (if neg \<and> prefix ''Infinity'' s1 then Inl Unmodelled else Inl JSONDecodeError)
             else
               (if has_frac (if d = CHR ''0'' then r else dropWhile is_digit r)
                     \<or> has_exp (if d = CHR ''0'' then r else dropWhile is_digit r)
                then Inl Unmodelled
                else Inr (JInt (if neg
                                then - int (nat_of_digits (if d = CHR ''0'' then [d]
                                                           else d # takeWhile is_digit r))
                                else int (nat_of_digits (if d = CHR ''0'' then [d]
                                                         else d # takeWhile is_digit r))),
                          if d = CHR ''0'' then r else dropWhile is_digit r))) = Inr (v, r)"
    by (simp only: match_number_def Let_def neg_def s1_def)
  then obtain d r0 where s1: "s1 = d # r0"
    by (cases s1) auto
  from m s1 have "(\<exists>i. v = JInt i) \<and> (r = r0 \<or> r = dropWhile is_digit r0)"
    by (auto split: if_splits)
  moreover have "length (dropWhile is_digit r0) \<le> length r0"
    by (rule length_dropWhile_le)
  ultimately have "(\<exists>i. v = JInt i) \<and> length r \<le> length r0"
    by auto
  with s1 l1 show ?thesis by simp
qed

lemma scan_elems_Inr:
  assumes "scan_elems (Suc n) s acc = Inr (vs, r)"
  shows "\<exists>v r0. scan_once n s = Inr (v, r0)
           \<and> ((skip_ws r0 = CHR '']'' # r \<and> vs = acc @ [v])
              \<or> (\<exists>r1. skip_ws r0 = CHR '','' # r1
                    \<and> scan_elems n (skip_ws r1) (acc @ [v]) = Inr (vs, r)))"
  using assms by (auto split: sum.splits list.splits if_splits)

lemma scan_elems_fuel_cases:
  assumes "scan_elems (Suc n) s acc = Inl OutOfFuel"
  shows "scan_once n s = Inl OutOfFuel
       \<or> (\<exists>v r0 r1. scan_once n s = Inr (v, r0) \<and> skip_ws r0 = CHR '','' # r1
              \<and> scan_elems n (skip_ws r1) (acc @ [v]) = Inl OutOfFuel)"
  using assms by (auto split: sum.splits list.splits if_splits)

lemma scan_members_Inr:
  assumes "scan_members (Suc n) s acc = Inr (ps, r)"
  shows "\<exists>key r0 r1 v r2. scanstring s = Inr (key, r0) \<and> skip_ws r0 = CHR '':'' # r1
           \<and> scan_once n (skip_ws r1) = Inr (v, r2)
           \<and> ((skip_ws r2 = CHR ''}'' # r \<and> ps = acc @ [(key, v)])
              \<or> (\<exists>r3 r4. skip_ws r2 = CHR '','' # r3 \<and> skip_ws r3 = dquote # r4
                    \<and> scan_members n r4 (acc @ [(key, v)]) = Inr (ps, r)))"
  using assms by (auto split: sum.splits list.splits if_splits)

lemma scan_members_fuel_cases:
  assumes "scan_members (Suc n) s acc = Inl OutOfFuel"
  shows "\<exists>key r0 r1. scanstring s = Inr (key, r0) \<and> skip_ws r0 = CHR '':'' # r1
           \<and> (scan_once n (skip_ws r1) = Inl OutOfFuel
              \<or> (\<exists>v r2 r3 r4. scan_once n (skip_ws r1) = Inr (v, r2)
                    \<and> skip_ws r2 = CHR '','' # r3 \<and> skip_ws r3 = dquote # r4
                    \<and> scan_members n r4 (acc @ [(key, v)]) = Inl OutOfFuel))"
  using assms scanstring_fuel [of s]
  by (auto split: sum.splits list.splits if_splits)


lemma scan_once_Inr:
  assumes "scan_once (Suc n) s = Inr (v, r)"
  shows "(\<exists>t str. s = dquote # t \<and> scanstring t = Inr (str, r) \<and> v = JStr str)
   \<or> (\<exists>t. s = CHR ''{'' # t \<and> skip_ws t = CHR ''}'' # r \<and> v = JObj [])
   \<or> (\<exists>t r1 pairs. s = CHR ''{'' # t \<and> skip_ws t = dquote # r1
          \<and> scan_members n r1 [] = Inr (pairs, r) \<and> v = JObj (py_dict pairs))
   \<or> (\<exists>t. s = CHR ''['' # t \<and> skip_ws t = CHR '']'' # r \<and> v = JArr [])
   \<or> (\<exists>t vs. s = CHR ''['' # t \<and> scan_elems n (skip_ws t) [] = Inr (vs, r) \<and> v = JArr vs)
   \<or> ((v = JNull \<or> (\<exists>b. v = JBool b)) \<and> length r < length s)
   \<or> match_number s = Inr (v, r)"
proof -
  from assms obtain c t where s: "s = c # t" by (cases s) auto
  consider (q) "c = dquote" | (ob) "c = CHR ''{''" | (ar) "c = CHR ''[''"
    | (other) "c \<noteq> dquote" "c \<noteq> CHR ''{''" "c \<noteq> CHR ''[''" by blast
  then show ?thesis
  proof cases
    case q
    then have "scan_once (Suc n) s
                 = (case scanstring t of Inl e \<Rightarrow> Inl e | Inr (str, rest) \<Rightarrow> Inr (JStr str, rest))"
      by (simp add: s)
    with assms have "\<exists>str. scanstring t = Inr (str, r) \<and> v = JStr str"
      by (auto split: sum.splits)
    with q s show ?thesis by blast
  next
    case ob
    then have e: "scan_once (Suc n) s
                 = (case skip_ws t of
                      [] \<Rightarrow> Inl JSONDecodeError
                    | c1 # r1 \<Rightarrow>
                        if c1 = CHR ''}'' then Inr (JObj [], r1)
                        else if c1 = dquote then
                          (case scan_members n r1 [] of
                             Inl e \<Rightarrow> Inl e
                           | Inr (pairs, rest) \<Rightarrow> Inr (JObj (py_dict pairs), rest))
                        else Inl JSONDecodeError)"
      by (simp add: s)
    from assms e obtain c1 r1 where k: "skip_ws t = c1 # r1"
      by (cases "skip_ws t") auto
    from assms e k have "(c1 = CHR ''}'' \<and> r1 = r \<and> v = JObj [])
        \<or> (c1 = dquote \<and> (\<exists>pairs. scan_members n r1 [] = Inr (pairs, r) \<and> v = JObj (py_dict pairs)))"
      by (auto split: if_splits sum.splits)
    with ob s k show ?thesis by blast
  next
    case ar
    then have e: "scan_once (Suc n) s
                 = (case skip_ws t of
                      [] \<Rightarrow> Inl JSONDecodeError
                    | c1 # r1 \<Rightarrow>
                        if c1 = CHR '']'' then Inr (JArr [], r1)
                        else
                          (case scan_elems n (c1 # r1) [] of
                             Inl e \<Rightarrow> Inl e
                           | Inr (vs, rest) \<Rightarrow> Inr (JArr vs, rest)))"
      by (simp add: s)
    from assms e obtain c1 r1 where k: "skip_ws t = c1 # r1"
      by (cases "skip_ws t") auto
    from assms e k have "(c1 = CHR '']'' \<and> r1 = r \<and> v = JArr [])
        \<or> (\<exists>vs. scan_elems n (c1 # r1) [] = Inr (vs, r) \<and> v = JArr vs)"
      by (auto split: if_splits sum.splits)
    with ar s k show ?thesis by (metis (no_types))
  next
    case other
    then have e: "scan_once (Suc n) s
                 = (if prefix ''null'' s then Inr (JNull, drop 4 s)
                    else if prefix ''true'' s then Inr (JBool True, drop 4 s)
                    else if prefix ''false'' s then Inr (JBool False, drop 5 s)
                    else if is_digit c \<or> c = CHR ''-'' then match_number s
                    else if prefix ''NaN'' s \<or> prefix ''Infinity'' s then Inl Unmodelled
                    else Inl JSONDecodeError)"
      unfolding s by (simp del: Cons_prefix_Cons drop_Suc_Cons)
    have l4: "length (drop 4 s) < length s" and l5: "length (drop 5 s) < length s"
      by (simp_all add: s)
    from assms e have "((v = JNull \<or> (\<exists>b. v = JBool b)) \<and> (r = drop 4 s \<or> r = drop 5 s))
                        \<or> match_number s = Inr (v, r)"
      by (auto split: if_splits)
    with l4 l5 show ?thesis by auto
  qed
qed

lemma scan_once_fuel_cases:
  assumes "scan_once (Suc n) s = Inl OutOfFuel"
  shows "(\<exists>t r1. s = CHR ''{'' # t \<and> skip_ws t = dquote # r1
            \<and> scan_members n r1 [] = Inl OutOfFuel)
       \<or> (\<exists>t. s = CHR ''['' # t \<and> scan_elems n (skip_ws t) [] = Inl OutOfFuel)"
proof -
  from assms obtain c t where s: "s = c # t" by (cases s) auto
  consider (q) "c = dquote" | (ob) "c = CHR ''{''" | (ar) "c = CHR ''[''"
    | (other) "c \<noteq> dquote" "c \<noteq> CHR ''{''" "c \<noteq> CHR ''[''" by blast
  then show ?thesis
  proof cases
    case q
    then have "scan_once (Suc n) s
                 = (case scanstring t of Inl e \<Rightarrow> Inl e | Inr (str, rest) \<Rightarrow> Inr (JStr str, rest))"
      by (simp add: s)
    with assms scanstring_fuel [of t] show ?thesis
      by (auto split: sum.splits)
  next
    case ob
    then have e: "scan_once (Suc n) s
                 = (case skip_ws t of
                      [] \<Rightarrow> Inl JSONDecodeError
                    | c1 # r1 \<Rightarrow>
                        if c1 = CHR ''}'' then Inr (JObj [], r1)
                        else if c1 = dquote then
                          (case scan_members n r1 [] of
                             Inl e \<Rightarrow> Inl e
                           | Inr (pairs, rest) \<Rightarrow> Inr (JObj (py_dict pairs), rest))
                        else Inl JSONDecodeError)"
      by (simp add: s)
    from assms e obtain c1 r1 where k: "skip_ws t = c1 # r1"
      by (cases "skip_ws t") auto
    from assms e k have "c1 = dquote \<and> scan_members n r1 [] = Inl OutOfFuel"
      by (auto split: if_splits sum.splits)
    with ob s k show ?thesis by blast
  next
    case ar
    then have e: "scan_once (Suc n) s
                 = (case skip_ws t of
                      [] \<Rightarrow> Inl JSONDecodeError
                    | c1 # r1 \<Rightarrow>
                        if c1 = CHR '']'' then Inr (JArr [], r1)
                        else
                          (case scan_elems n (c1 # r1) [] of
                             Inl e \<Rightarrow> Inl e
                           | Inr (vs, rest) \<Rightarrow> Inr (JArr vs, rest)))"
      by (simp add: s)
    from assms e obtain c1 r1 where k: "skip_ws t = c1 # r1"
      by (cases "skip_ws t") auto
    from assms e k have "scan_elems n (c1 # r1) [] = Inl OutOfFuel"
      by (auto split: if_splits sum.splits)
    with ar s k show ?thesis by simp
  next
    case other
    then have e: "scan_once (Suc n) s
                 = (if prefix ''null'' s then Inr (JNull, drop 4 s)
                    else if prefix ''true'' s then Inr (JBool True, drop 4 s)
                    else if prefix ''false'' s then Inr (JBool False, drop 5 s)
                    else if is_digit c \<or> c = CHR ''-'' then match_number s
                    else if prefix ''NaN'' s \<or> prefix ''Infinity'' s then Inl Unmodelled
                    else Inl JSONDecodeError)"
      unfolding s by (simp del: Cons_prefix_Cons drop_Suc_Cons)
    from assms e match_number_fuel [of s] show ?thesis
      by (auto split: if_splits)
  qed
qed

lemma skip_ws_Cons_shorter: "skip_ws x = c # y \<Longrightarrow> length y < length x"
  using skip_ws_length [of x] by simp

lemma scan_shorter_all:
  "(\<forall>s v r. scan_once n s = Inr (v, r) \<longrightarrow> length r < length s)
   \<and> (\<forall>s acc ps r. scan_members n s acc = Inr (ps, r) \<longrightarrow> length r < length s)
   \<and> (\<forall>s acc vs r. scan_elems n s acc = Inr (vs, r) \<longrightarrow> length r < length s)"
proof (induction n)
  case 0
  show ?case by simp
next
  case (Suc n)
  from Suc have ih_once: "\<And>s v r. scan_once n s = Inr (v, r) \<Longrightarrow> length r < length s"
    and ih_mem: "\<And>s acc ps r. scan_members n s acc = Inr (ps, r) \<Longrightarrow> length r < length s"
    and ih_el: "\<And>s acc vs r. scan_elems n s acc = Inr (vs, r) \<Longrightarrow> length r < length s"
    by blast+
  have once: "length r < length s" if a: "scan_once (Suc n) s = Inr (v, r)" for s v r
  proof -
    from scan_once_Inr [OF a]
    consider (str) t str where "s = dquote # t" "scanstring t = Inr (str, r)"
      | (ob0) t where "s = CHR ''{'' # t" "skip_ws t = CHR ''}'' # r"
      | (ob) t r1 pairs where "s = CHR ''{'' # t" "skip_ws t = dquote # r1"
          "scan_members n r1 [] = Inr (pairs, r)"
      | (ar0) t where "s = CHR ''['' # t" "skip_ws t = CHR '']'' # r"
      | (ar) t vs where "s = CHR ''['' # t" "scan_elems n (skip_ws t) [] = Inr (vs, r)"
      | (lit) "length r < length s"
      | (num) "match_number s = Inr (v, r)"
      by blast
    then show ?thesis
    proof cases
      case str
      with scanstring_shorter [OF str(2)] show ?thesis by simp
    next
      case ob0
      with skip_ws_Cons_shorter [OF ob0(2)] show ?thesis by simp
    next
      case ob
      with skip_ws_Cons_shorter [OF ob(2)] ih_mem [OF ob(3)] show ?thesis by simp
    next
      case ar0
      with skip_ws_Cons_shorter [OF ar0(2)] show ?thesis by simp
    next
      case ar
      with ih_el [OF ar(2)] skip_ws_length [of t] show ?thesis by simp
    next
      case lit
      then show ?thesis .
    next
      case num
      with match_number_Inr [OF num] show ?thesis by simp
    qed
  qed
  have mem: "length r < length s" if a: "scan_members (Suc n) s acc = Inr (ps, r)" for s acc ps r
  proof -
    from scan_members_Inr [OF a] obtain key r0 r1 v r2 where
      h: "scanstring s = Inr (key, r0)" "skip_ws r0 = CHR '':'' # r1"
         "scan_once n (skip_ws r1) = Inr (v, r2)"
         "(skip_ws r2 = CHR ''}'' # r \<and> ps = acc @ [(key, v)])
          \<or> (\<exists>r3 r4. skip_ws r2 = CHR '','' # r3 \<and> skip_ws r3 = dquote # r4
                \<and> scan_members n r4 (acc @ [(key, v)]) = Inr (ps, r))"
      by blast
    have l2: "length r2 < length s"
      using scanstring_shorter [OF h(1)] skip_ws_Cons_shorter [OF h(2)]
        ih_once [OF h(3)] skip_ws_length [of r1] by simp
    from h(4) show ?thesis
    proof
      assume "skip_ws r2 = CHR ''}'' # r \<and> ps = acc @ [(key, v)]"
      then have "length r < length r2" using skip_ws_Cons_shorter by blast
      with l2 show ?thesis by simp
    next
      assume "\<exists>r3 r4. skip_ws r2 = CHR '','' # r3 \<and> skip_ws r3 = dquote # r4
                \<and> scan_members n r4 (acc @ [(key, v)]) = Inr (ps, r)"
      then obtain r3 r4 where k: "skip_ws r2 = CHR '','' # r3" "skip_ws r3 = dquote # r4"
        "scan_members n r4 (acc @ [(key, v)]) = Inr (ps, r)" by blast
      from skip_ws_Cons_shorter [OF k(1)] skip_ws_Cons_shorter [OF k(2)] ih_mem [OF k(3)] l2
      show ?thesis by simp
    qed
  qed
  have el: "length r < length s" if a: "scan_elems (Suc n) s acc = Inr (vs, r)" for s acc vs r
  proof -
    from scan_elems_Inr [OF a] obtain v r0 where
      h: "scan_once n s = Inr (v, r0)"
         "(skip_ws r0 = CHR '']'' # r \<and> vs = acc @ [v])
          \<or> (\<exists>r1. skip_ws r0 = CHR '','' # r1
                \<and> scan_elems n (skip_ws r1) (acc @ [v]) = Inr (vs, r))"
      by blast
    from h(2) show ?thesis
    proof
      assume "skip_ws r0 = CHR '']'' # r \<and> vs = acc @ [v]"
      then have "length r < length r0" using skip_ws_Cons_shorter by blast
      with ih_once [OF h(1)] show ?thesis by simp
    next
      assume "\<exists>r1. skip_ws r0 = CHR '','' # r1
                \<and> scan_elems n (skip_ws r1) (acc @ [v]) = Inr (vs, r)"
      then obtain r1 where k: "skip_ws r0 = CHR '','' # r1"
        "scan_elems n (skip_ws r1) (acc @ [v]) = Inr (vs, r)" by blast
      from skip_ws_Cons_shorter [OF k(1)] ih_el [OF k(2)] skip_ws_length [of r1] ih_once [OF h(1)]
      show ?thesis by simp
    qed
  qed
  from once mem el show ?case by blast
qed

lemma scan_once_shorter: "scan_once n s = Inr (v, r) \<Longrightarrow> length r < length s"
  using scan_shorter_all [of n] by blast

lemma scan_members_shorter: "scan_members n s acc = Inr (ps, r) \<Longrightarrow> length r < length s"
  using scan_shorter_all [of n] by blast

lemma scan_elems_shorter: "scan_elems n s acc = Inr (vs, r) \<Longrightarrow> length r < length s"
  using scan_shorter_all [of n] by blast

lemma scan_fuel_all:
  "(\<forall>s. 2 * length s < n \<longrightarrow> scan_once n s \<noteq> Inl OutOfFuel)
   \<and> (\<forall>s acc. 2 * length s < n \<longrightarrow> scan_members n s acc \<noteq> Inl OutOfFuel)
   \<and> (\<forall>s acc. 2 * length s + 1 < n \<longrightarrow> scan_elems n s acc \<noteq> Inl OutOfFuel)"
proof (induction n)
  case 0
  show ?case by simp
next
  case (Suc n)
  from Suc have ih_once: "\<And>s. 2 * length s < n \<Longrightarrow> scan_once n s \<noteq> Inl OutOfFuel"
    and ih_mem: "\<And>s acc. 2 * length s < n \<Longrightarrow> scan_members n s acc \<noteq> Inl OutOfFuel"
    and ih_el: "\<And>s acc. 2 * length s + 1 < n \<Longrightarrow> scan_elems n s acc \<noteq> Inl OutOfFuel"
    by blast+
  have once: "scan_once (Suc n) s \<noteq> Inl OutOfFuel" if b: "2 * length s < Suc n" for s
  proof
    assume "scan_once (Suc n) s = Inl OutOfFuel"
    from scan_once_fuel_cases [OF this] show False
    proof
      assume "\<exists>t r1. s = CHR ''{'' # t \<and> skip_ws t = dquote # r1
                \<and> scan_members n r1 [] = Inl OutOfFuel"
      then obtain t r1 where k: "s = CHR ''{'' # t" "skip_ws t = dquote # r1"
        "scan_members n r1 [] = Inl OutOfFuel" by blast
      from skip_ws_Cons_shorter [OF k(2)] k(1) b have "2 * length r1 < n" by simp
      from ih_mem [OF this] k(3) show False by simp
    next
      assume "\<exists>t. s = CHR ''['' # t \<and> scan_elems n (skip_ws t) [] = Inl OutOfFuel"
      then obtain t where k: "s = CHR ''['' # t" "scan_elems n (skip_ws t) [] = Inl OutOfFuel"
        by blast
      from skip_ws_length [of t] k(1) b have "2 * length (skip_ws t) + 1 < n" by simp
      from ih_el [OF this] k(2) show False by simp
    qed
  qed
  have mem: "scan_members (Suc n) s acc \<noteq> Inl OutOfFuel" if b: "2 * length s < Suc n" for s acc
  proof
    assume "scan_members (Suc n) s acc = Inl OutOfFuel"
    from scan_members_fuel_cases [OF this] obtain key r0 r1 where
      h: "scanstring s = Inr (key, r0)" "skip_ws r0 = CHR '':'' # r1"
         "scan_once n (skip_ws r1) = Inl OutOfFuel
          \<or> (\<exists>v r2 r3 r4. scan_once n (skip_ws r1) = Inr (v, r2)
                \<and> skip_ws r2 = CHR '','' # r3 \<and> skip_ws r3 = dquote # r4
                \<and> scan_members n r4 (acc @ [(key, v)]) = Inl OutOfFuel)"
      by blast
    have l1: "length (skip_ws r1) < length s"
      using scanstring_shorter [OF h(1)] skip_ws_Cons_shorter [OF h(2)] skip_ws_length [of r1]
      by simp
    from h(3) show False
    proof
      assume a: "scan_once n (skip_ws r1) = Inl OutOfFuel"
      from l1 b have "2 * length (skip_ws r1) < n" by simp
      from ih_once [OF this] a show False by simp
    next
      assume "\<exists>v r2 r3 r4. scan_once n (skip_ws r1) = Inr (v, r2)
                \<and> skip_ws r2 = CHR '','' # r3 \<and> skip_ws r3 = dquote # r4
                \<and> scan_members n r4 (acc @ [(key, v)]) = Inl OutOfFuel"
      then obtain v r2 r3 r4 where k: "scan_once n (skip_ws r1) = Inr (v, r2)"
        "skip_ws r2 = CHR '','' # r3" "skip_ws r3 = dquote # r4"
        "scan_members n r4 (acc @ [(key, v)]) = Inl OutOfFuel" by blast
      from scan_once_shorter [OF k(1)] skip_ws_Cons_shorter [OF k(2)]
        skip_ws_Cons_shorter [OF k(3)] l1 b
      have "2 * length r4 < n" by simp
      from ih_mem [OF this] k(4) show False by simp
    qed
  qed
  have el: "scan_elems (Suc n) s acc \<noteq> Inl OutOfFuel" if b: "2 * length s + 1 < Suc n" for s acc
  proof
    assume "scan_elems (Suc n) s acc = Inl OutOfFuel"
    from scan_elems_fuel_cases [OF this] show False
    proof
      assume a: "scan_once n s = Inl OutOfFuel"
      from b have "2 * length s < n" by simp
      from ih_once [OF this] a show False by simp
    next
      assume "\<exists>v r0 r1. scan_once n s = Inr (v, r0) \<and> skip_ws r0 = CHR '','' # r1
              \<and> scan_elems n (skip_ws r1) (acc @ [v]) = Inl OutOfFuel"
      then obtain v r0 r1 where k: "scan_once n s = Inr (v, r0)" "skip_ws r0 = CHR '','' # r1"
        "scan_elems n (skip_ws r1) (acc @ [v]) = Inl OutOfFuel" by blast
      from scan_once_shorter [OF k(1)] skip_ws_Cons_shorter [OF k(2)] skip_ws_length [of r1] b
      have "2 * length (skip_ws r1) + 1 < n" by simp
      from ih_el [OF this] k(3) show False by simp
    qed
  qed
  from once mem el show ?case by blast
qed

lemma json_loads_fuel: "json_loads s \<noteq> Inl OutOfFuel"
proof -
  have "2 * length (skip_ws s) < Suc (2 * length s)"
    using skip_ws_length [of s] by simp
  with scan_fuel_all [of "Suc (2 * length s)"]
  have ne: "scan_once (Suc (2 * length s)) (skip_ws s) \<noteq> Inl OutOfFuel" by blast
  show ?thesis
  proof (cases "scan_once (Suc (2 * length s)) (skip_ws s)")
    case (Inl e)
    with ne show ?thesis
      by (simp add: json_loads_def del: scan_once.simps)
  next
    case (Inr p)
    then show ?thesis
      by (cases p) (simp add: json_loads_def del: scan_once.simps)
  qed
qed

section \<open>Writing and reading back JSON\<close>

lemma hex_val_hex_digit: "d < 16 \<Longrightarrow> hex_val (hex_digit d) = Some d"
  by (auto simp: hex_val_def hex_digit_def Let_def)

lemma hex4_byte:
  assumes "n < 256"
  shows "hex4 CHR ''0'' CHR ''0'' (hex_digit (n div 16)) (hex_digit (n mod 16)) = Some n"
proof -
  have a: "n div 16 < 16" using assms by simp
  have b: "n mod 16 < 16" by simp
  have z: "hex_val CHR ''0'' = Some 0" by (simp add: hex_val_def)
  show ?thesis
    by (simp add: hex4_def z hex_val_hex_digit [OF a] hex_val_hex_digit [OF b])
qed

lemma char_by_code: "(of_char c :: nat) = of_char d \<Longrightarrow> c = d"
  by (simp only: of_char_eq_iff)

lemma of_char_byte: "(of_char c :: nat) < 256"
  by (rule nat_of_char_less_256)

lemma scanstring_escape: "scanstring (escape_ascii c @ r) = cons_result c (scanstring r)"
proof -
  let ?n = "of_char c :: nat"
  consider (dq) "c = dquote" | (bs) "c = backslash"
    | (n10) "?n = 10" | (n13) "?n = 13" | (n9) "?n = 9" | (n8) "?n = 8" | (n12) "?n = 12"
    | (u) "c \<noteq> dquote" "c \<noteq> backslash" "?n \<noteq> 10" "?n \<noteq> 13" "?n \<noteq> 9" "?n \<noteq> 8" "?n \<noteq> 12"
          "?n < 32 \<or> 126 < ?n"
    | (plain) "c \<noteq> dquote" "c \<noteq> backslash" "32 \<le> ?n" "?n \<le> 126"
    by fastforce
  then show ?thesis
  proof cases
    case dq
    then show ?thesis by (simp add: escape_ascii_def unescape_def)
  next
    case bs
    then show ?thesis by (simp add: escape_ascii_def unescape_def)
  next
    case n10
    then have "c = CHR 0x0A" by (intro char_by_code) simp
    then show ?thesis by (simp add: escape_ascii_def unescape_def)
  next
    case n13
    then have "c = CHR 0x0D" by (intro char_by_code) simp
    then show ?thesis by (simp add: escape_ascii_def unescape_def)
  next
    case n9
    then have "c = CHR 0x09" by (intro char_by_code) simp
    then show ?thesis by (simp add: escape_ascii_def unescape_def)
  next
    case n8
    then have "c = CHR 0x08" by (intro char_by_code) simp
    then show ?thesis by (simp add: escape_ascii_def unescape_def)
  next
    case n12
    then have "c = CHR 0x0C" by (intro char_by_code) simp
    then show ?thesis by (simp add: escape_ascii_def unescape_def)
  next
    case u
    have e: "escape_ascii c = [backslash, CHR ''u'', CHR ''0'', CHR ''0'',
                               hex_digit (?n div 16), hex_digit (?n mod 16)]"
      using u by (simp add: escape_ascii_def Let_def)
    show ?thesis
      by (simp add: e hex4_byte [OF of_char_byte])
  next
    case plain
    then have e: "escape_ascii c = [c]"
      by (auto simp: escape_ascii_def Let_def)
    from plain show ?thesis
      by (simp add: e)
  qed
qed

lemma scanstring_encoded:
  "scanstring (concat (map escape_ascii s) @ dquote # r) = Inr (s, r)"
  by (induction s) (simp_all add: scanstring_escape cons_result_def)


lemma is_digit_digit_char: "d < 10 \<Longrightarrow> is_digit (digit_char d)"
  by (simp add: is_digit_def digit_char_def)

lemma digit_val_digit_char: "d < 10 \<Longrightarrow> digit_val (digit_char d) = d"
  by (simp add: digit_val_def digit_char_def)

lemma digit_char_zero: "d < 10 \<Longrightarrow> digit_char d = CHR ''0'' \<longleftrightarrow> d = 0"
proof -
  assume d: "d < 10"
  have "digit_char d = CHR ''0'' \<longleftrightarrow> (of_char (digit_char d) :: nat) = of_char CHR ''0''"
    by (simp only: of_char_eq_iff)
  also have "\<dots> \<longleftrightarrow> d = 0"
    using d by (simp add: digit_char_def)
  finally show ?thesis .
qed

lemma digits_of_digits: "c \<in> set (digits_of n) \<Longrightarrow> is_digit c"
proof (induction n rule: digits_of.induct)
  case (1 n)
  then show ?case
    by (subst (asm) digits_of.simps) (auto simp: is_digit_digit_char split: if_splits)
qed

lemma digits_of_nonempty: "digits_of n \<noteq> []"
  by (subst digits_of.simps) simp

lemma digits_of_hd: "0 < n \<Longrightarrow> hd (digits_of n) \<noteq> CHR ''0''"
proof (induction n rule: digits_of.induct)
  case (1 n)
  show ?case
  proof (cases "n < 10")
    case True
    with "1.prems" show ?thesis
      by (subst digits_of.simps) (simp add: digit_char_zero)
  next
    case False
    then have "0 < n div 10" by simp
    with "1.IH" False have "hd (digits_of (n div 10)) \<noteq> CHR ''0''" by simp
    with False show ?thesis
      by (subst digits_of.simps) (simp add: digits_of_nonempty)
  qed
qed

lemma digits_of_zero: "digits_of 0 = ''0''"
proof -
  have "digit_char 0 = CHR ''0''"
    by (rule char_by_code) (simp add: digit_char_def)
  then show ?thesis
    by (subst digits_of.simps) simp
qed

lemma nat_of_digits_snoc: "nat_of_digits (ds @ [c]) = 10 * nat_of_digits ds + digit_val c"
  by (simp add: nat_of_digits_def)

lemma nat_of_digits_digits_of: "nat_of_digits (digits_of n) = n"
proof (induction n rule: digits_of.induct)
  case (1 n)
  show ?case
  proof (cases "n < 10")
    case True
    then show ?thesis
      by (subst digits_of.simps) (simp add: nat_of_digits_def digit_val_digit_char)
  next
    case False
    with "1.IH" have "nat_of_digits (digits_of (n div 10)) = n div 10" by simp
    with False show ?thesis
      by (subst digits_of.simps) (simp add: nat_of_digits_snoc digit_val_digit_char)
  qed
qed

lemma takeWhile_digits:
  assumes "\<forall>c\<in>set ds. is_digit c" and "rest = [] \<or> \<not> is_digit (hd rest)"
  shows "takeWhile is_digit (ds @ rest) = ds" and "dropWhile is_digit (ds @ rest) = rest"
proof -
  have r: "takeWhile is_digit rest = []" "dropWhile is_digit rest = rest"
    using assms(2) by (cases rest; simp)+
  show "takeWhile is_digit (ds @ rest) = ds"
    using assms(1) r by simp
  show "dropWhile is_digit (ds @ rest) = rest"
    using assms(1) r by simp
qed

lemma match_number_digits:
  assumes "rest = [] \<or> hd rest = CHR '','' \<or> hd rest = newline"
  shows "match_number (digits_of n @ rest) = Inr (JInt (int n), rest)"
    and "0 < n \<Longrightarrow> match_number (CHR ''-'' # digits_of n @ rest) = Inr (JInt (- int n), rest)"
proof -
  obtain d r where dr: "digits_of n = d # r"
    using digits_of_nonempty [of n] by (cases "digits_of n") auto
  have dig: "is_digit d" "\<forall>c\<in>set r. is_digit c"
    using digits_of_digits [of _ n] dr by auto
  have nodig: "rest = [] \<or> \<not> is_digit (hd rest)"
    using assms by (auto simp: is_digit_def)
  have nf: "\<not> has_frac rest" "\<not> has_exp rest"
    using assms by (cases rest; auto simp: has_frac_def has_exp_def split: list.splits)+
  have val: "nat_of_digits (d # r) = n"
    using nat_of_digits_digits_of [of n] dr by simp
  have dminus: "d \<noteq> CHR ''-''"
    using dig(1) by (auto simp: is_digit_def)
  have body: "(let ds = (if d = CHR ''0'' then [d] else d # takeWhile is_digit (r @ rest));
                   rest' = (if d = CHR ''0'' then r @ rest else dropWhile is_digit (r @ rest));
                   m = int (nat_of_digits ds)
               in if has_frac rest' \<or> has_exp rest' then Inl Unmodelled
                  else Inr (JInt (if neg then - m else m), rest'))
              = Inr (JInt (if neg then - int n else int n), rest)" for neg
  proof (cases "d = CHR ''0''")
    case True
    have "n = 0"
    proof (rule ccontr)
      assume "n \<noteq> 0"
      then have "hd (digits_of n) \<noteq> CHR ''0''" using digits_of_hd [of n] by simp
      with dr True show False by simp
    qed
    then have "r = []" using dr by (simp add: digits_of_zero)
    with True val nf show ?thesis by (simp add: Let_def)
  next
    case False
    with val nf takeWhile_digits [OF dig(2) nodig] show ?thesis
      by (simp add: Let_def)
  qed
  show "match_number (digits_of n @ rest) = Inr (JInt (int n), rest)"
    using body [of False] dig(1) dminus by (simp add: match_number_def dr Let_def)
  show "match_number (CHR ''-'' # digits_of n @ rest) = Inr (JInt (- int n), rest)" if "0 < n"
    using body [of True] dig(1) by (simp add: match_number_def dr Let_def)
qed

lemma match_number_str_of_int:
  assumes "rest = [] \<or> hd rest = CHR '','' \<or> hd rest = newline"
  shows "match_number (str_of_int i @ rest) = Inr (JInt i, rest)"
proof (cases "i < 0")
  case True
  then have "0 < nat (- i)" by simp
  from match_number_digits(2) [OF assms this] True show ?thesis
    by (simp add: str_of_int_def)
next
  case False
  with match_number_digits(1) [OF assms, of "nat i"] show ?thesis
    by (simp add: str_of_int_def)
qed

lemma skip_ws_indent: "\<not> is_ws c \<Longrightarrow> skip_ws (newline_indent ind k @ c # r) = c # r"
  by (simp add: skip_ws_def newline_indent_def is_ws_def dropWhile_append3)

lemma skip_ws_keep: "\<not> is_ws c \<Longrightarrow> skip_ws (c # r) = c # r"
  by (simp add: skip_ws_def)

lemma skip_ws_blank: "\<not> is_ws c \<Longrightarrow> skip_ws (CHR '' '' # c # r) = c # r"
  by (simp add: skip_ws_def is_ws_def)

lemma str_of_int_head:
  "\<exists>c r. str_of_int i = c # r \<and> (is_digit c \<or> c = CHR ''-'')"
proof -
  obtain d r where dr: "digits_of (nat \<bar>i\<bar>) = d # r"
    using digits_of_nonempty [of "nat \<bar>i\<bar>"] by (cases "digits_of (nat \<bar>i\<bar>)") auto
  then have "is_digit d" using digits_of_digits [of d "nat \<bar>i\<bar>"] by simp
  with dr show ?thesis
    by (cases "i < 0") (auto simp: str_of_int_def abs_if)
qed

lemma iterencode_head:
  "\<exists>c r. iterencode ind lvl j = c # r \<and> \<not> is_ws c \<and> c \<noteq> CHR '']''"
proof (cases j)
  case (JInt i)
  from str_of_int_head [of i] obtain c r where
    "str_of_int i = c # r" "is_digit c \<or> c = CHR ''-''" by blast
  with JInt show ?thesis by (auto simp: is_ws_def is_digit_def)
qed (auto simp: is_ws_def encode_basestring_ascii_def)

lemma scan_once_null: "scan_once (Suc n) (''null'' @ rest) = Inr (JNull, rest)"
  by simp

lemma scan_once_true: "scan_once (Suc n) (''true'' @ rest) = Inr (JBool True, rest)"
  by simp

lemma scan_once_false: "scan_once (Suc n) (''false'' @ rest) = Inr (JBool False, rest)"
  by simp

lemma scan_once_int:
  assumes "rest = [] \<or> hd rest = CHR '','' \<or> hd rest = newline"
  shows "scan_once (Suc n) (str_of_int i @ rest) = Inr (JInt i, rest)"
proof -
  from str_of_int_head [of i] obtain c r where
    h: "str_of_int i = c # r" "is_digit c \<or> c = CHR ''-''" by blast
  have "match_number (c # r @ rest) = Inr (JInt i, rest)"
    using match_number_str_of_int [OF assms, of i] h(1) by simp
  moreover have "c \<noteq> dquote" "c \<noteq> CHR ''{''" "c \<noteq> CHR ''[''" "c \<noteq> CHR ''n''"
    "c \<noteq> CHR ''t''" "c \<noteq> CHR ''f''"
    using h(2) by (auto simp: is_digit_def)
  ultimately show ?thesis
    using h by simp
qed

lemma scan_once_str:
  "scan_once (Suc n) (encode_basestring_ascii s @ rest) = Inr (JStr s, rest)"
  by (simp add: encode_basestring_ascii_def scanstring_encoded)


lemma iterencode_list_head:
  "xs \<noteq> [] \<Longrightarrow> \<exists>c r. iterencode_list ind lvl xs = c # r \<and> \<not> is_ws c \<and> c \<noteq> CHR '']''"
proof (cases xs)
  case Nil
  then show "xs \<noteq> [] \<Longrightarrow> ?thesis" by simp
next
  case (Cons x xs')
  from iterencode_head [of ind lvl x] obtain c r where
    "iterencode ind lvl x = c # r" "\<not> is_ws c" "c \<noteq> CHR '']''" by blast
  with Cons show ?thesis by simp
qed

lemma iterencode_dict_head:
  "kvs \<noteq> [] \<Longrightarrow> \<exists>r. iterencode_dict ind lvl kvs = dquote # r"
  by (cases kvs) (simp_all add: encode_basestring_ascii_def)

lemma py_dict_distinct:
  assumes "distinct (map fst kvs)"
  shows "py_dict kvs = kvs"
proof -
  have "distinct (map fst (d @ kvs)) \<Longrightarrow>
          foldl (\<lambda>d kv. dict_set d (fst kv) (snd kv)) d kvs = d @ kvs" for d
  proof (induction kvs arbitrary: d)
    case Nil
    then show ?case by simp
  next
    case (Cons kv kvs)
    from Cons.prems have "fst kv \<notin> fst ` set d" by auto
    then have "dict_set d (fst kv) (snd kv) = d @ [kv]"
      by (simp add: dict_set_fresh)
    moreover from Cons.prems have "distinct (map fst ((d @ [kv]) @ kvs))" by simp
    ultimately show ?case using Cons.IH [of "d @ [kv]"] by simp
  qed
  from this [of "[]"] assms show ?thesis by (simp add: py_dict_def)
qed

lemma scan_once_array:
  assumes "xs \<noteq> []"
    and "scan_elems m (iterencode_list ind (Suc lvl) xs @ newline_indent ind lvl @ '']'' @ rest) []
           = Inr (xs, rest)"
  shows "scan_once (Suc m) (iterencode ind lvl (JArr xs) @ rest) = Inr (JArr xs, rest)"
proof -
  from iterencode_list_head [OF assms(1), of ind "Suc lvl"] obtain c r where
    h: "iterencode_list ind (Suc lvl) xs = c # r" "\<not> is_ws c" "c \<noteq> CHR '']''" by blast
  have "skip_ws (newline_indent ind (Suc lvl) @ c # r @ newline_indent ind lvl @ '']'' @ rest)
          = c # r @ newline_indent ind lvl @ '']'' @ rest"
    by (rule skip_ws_indent [OF h(2)])
  with assms h show ?thesis by simp
qed

lemma scan_elems_last:
  assumes "scan_once m (iterencode ind lvl x @ newline_indent ind k @ '']'' @ rest)
             = Inr (x, newline_indent ind k @ '']'' @ rest)"
  shows "scan_elems (Suc m) (iterencode_list ind lvl [x] @ newline_indent ind k @ '']'' @ rest) acc
           = Inr (acc @ [x], rest)"
proof -
  have "skip_ws (newline_indent ind k @ CHR '']'' # rest) = CHR '']'' # rest"
    by (rule skip_ws_indent) (simp add: is_ws_def)
  with assms show ?thesis by simp
qed

lemma scan_elems_more:
  assumes "xs \<noteq> []"
    and "scan_once m (iterencode ind lvl x @ CHR '','' # newline_indent ind lvl
                       @ iterencode_list ind lvl xs @ newline_indent ind k @ '']'' @ rest)
           = Inr (x, CHR '','' # newline_indent ind lvl
                       @ iterencode_list ind lvl xs @ newline_indent ind k @ '']'' @ rest)"
    and "scan_elems m (iterencode_list ind lvl xs @ newline_indent ind k @ '']'' @ rest) (acc @ [x])
           = Inr (acc @ x # xs, rest)"
  shows "scan_elems (Suc m) (iterencode_list ind lvl (x # xs) @ newline_indent ind k @ '']'' @ rest) acc
           = Inr (acc @ x # xs, rest)"
proof -
  from iterencode_list_head [OF assms(1), of ind lvl] obtain c r where
    h: "iterencode_list ind lvl xs = c # r" "\<not> is_ws c" by blast
  have a: "skip_ws (CHR '','' # newline_indent ind lvl @ iterencode_list ind lvl xs
                      @ newline_indent ind k @ '']'' @ rest)
          = CHR '','' # newline_indent ind lvl @ iterencode_list ind lvl xs
                      @ newline_indent ind k @ '']'' @ rest"
    by (rule skip_ws_keep) (simp add: is_ws_def)
  have b: "skip_ws (newline_indent ind lvl @ iterencode_list ind lvl xs
                      @ newline_indent ind k @ '']'' @ rest)
          = iterencode_list ind lvl xs @ newline_indent ind k @ '']'' @ rest"
    using skip_ws_indent [OF h(2), of ind lvl "r @ newline_indent ind k @ '']'' @ rest"] h(1)
    by simp
  from assms a b show ?thesis by simp
qed


lemma scan_once_object:
  assumes "kvs \<noteq> []"
    and "distinct (map fst kvs)"
    and "scan_members m (tl (iterencode_dict ind (Suc lvl) kvs) @ newline_indent ind lvl @ ''}'' @ rest) []
           = Inr (kvs, rest)"
  shows "scan_once (Suc m) (iterencode ind lvl (JObj kvs) @ rest) = Inr (JObj kvs, rest)"
proof -
  from iterencode_dict_head [OF assms(1), of ind "Suc lvl"] obtain r where
    h: "iterencode_dict ind (Suc lvl) kvs = dquote # r" by blast
  have "skip_ws (newline_indent ind (Suc lvl) @ dquote # r @ newline_indent ind lvl @ ''}'' @ rest)
          = dquote # r @ newline_indent ind lvl @ ''}'' @ rest"
    by (rule skip_ws_indent) (simp add: is_ws_def)
  with assms h py_dict_distinct [OF assms(2)] show ?thesis by simp
qed

lemma scan_members_key:
  assumes "iterencode ind lvl v = c # r" and "\<not> is_ws c"
  shows "scan_members (Suc m)
           (concat (map escape_ascii key) @ dquote # CHR '':'' # CHR '' '' # c # r @ tail) acc
         = (case scan_once m (c # r @ tail) of
              Inl e \<Rightarrow> Inl e
            | Inr (v', r2) \<Rightarrow>
                (case skip_ws r2 of
                   [] \<Rightarrow> Inl JSONDecodeError
                 | c2 # r3 \<Rightarrow>
                     if c2 = CHR ''}'' then Inr (acc @ [(key, v')], r3)
                     else if c2 = CHR '','' then
                       (case skip_ws r3 of
                          [] \<Rightarrow> Inl JSONDecodeError
                        | c3 # r4 \<Rightarrow>
                            if c3 = dquote then scan_members m r4 (acc @ [(key, v')])
                            else Inl JSONDecodeError)
                     else Inl JSONDecodeError))"
proof -
  have a: "skip_ws (CHR '':'' # CHR '' '' # c # r @ tail) = CHR '':'' # CHR '' '' # c # r @ tail"
    by (rule skip_ws_keep) (simp add: is_ws_def)
  have b: "skip_ws (CHR '' '' # c # r @ tail) = c # r @ tail"
    by (rule skip_ws_blank [OF assms(2)])
  show ?thesis
    by (simp add: scanstring_encoded a b)
qed

lemma scan_members_last:
  assumes "scan_once m (iterencode ind lvl (snd kv) @ newline_indent ind k @ ''}'' @ rest)
             = Inr (snd kv, newline_indent ind k @ ''}'' @ rest)"
  shows "scan_members (Suc m) (tl (iterencode_dict ind lvl [kv]) @ newline_indent ind k @ ''}'' @ rest) acc
           = Inr (acc @ [kv], rest)"
proof -
  from iterencode_head [of ind lvl "snd kv"] obtain c r where
    h: "iterencode ind lvl (snd kv) = c # r" "\<not> is_ws c" by blast
  have s: "skip_ws (newline_indent ind k @ CHR ''}'' # rest) = CHR ''}'' # rest"
    by (rule skip_ws_indent) (simp add: is_ws_def)
  have t: "tl (iterencode_dict ind lvl [kv]) @ newline_indent ind k @ ''}'' @ rest
             = concat (map escape_ascii (fst kv)) @ dquote # CHR '':'' # CHR '' '' # c # r
                 @ (newline_indent ind k @ ''}'' @ rest)"
    using h(1) by (simp add: encode_basestring_ascii_def)
  from assms h(1) have "scan_once m (c # r @ newline_indent ind k @ ''}'' @ rest)
             = Inr (snd kv, newline_indent ind k @ ''}'' @ rest)" by simp
  then show ?thesis
    unfolding t scan_members_key [OF h] using s by simp
qed

lemma scan_members_more:
  assumes "kvs \<noteq> []"
    and "scan_once m (iterencode ind lvl (snd kv) @ CHR '','' # newline_indent ind lvl
                       @ iterencode_dict ind lvl kvs @ newline_indent ind k @ ''}'' @ rest)
           = Inr (snd kv, CHR '','' # newline_indent ind lvl
                       @ iterencode_dict ind lvl kvs @ newline_indent ind k @ ''}'' @ rest)"
    and "scan_members m (tl (iterencode_dict ind lvl kvs) @ newline_indent ind k @ ''}'' @ rest)
             (acc @ [kv])
           = Inr (acc @ kv # kvs, rest)"
  shows "scan_members (Suc m)
           (tl (iterencode_dict ind lvl (kv # kvs)) @ newline_indent ind k @ ''}'' @ rest) acc
           = Inr (acc @ kv # kvs, rest)"
proof -
  let ?close = "newline_indent ind k @ ''}'' @ rest"
  let ?tail = "CHR '','' # newline_indent ind lvl @ iterencode_dict ind lvl kvs @ ?close"
  from iterencode_head [of ind lvl "snd kv"] obtain c r where
    h: "iterencode ind lvl (snd kv) = c # r" "\<not> is_ws c" by blast
  from iterencode_dict_head [OF assms(1), of ind lvl] obtain r' where
    d: "iterencode_dict ind lvl kvs = dquote # r'" by blast
  have a: "skip_ws ?tail = ?tail"
    by (rule skip_ws_keep) (simp add: is_ws_def)
  have b: "skip_ws (newline_indent ind lvl @ iterencode_dict ind lvl kvs @ ?close)
             = dquote # r' @ ?close"
    using skip_ws_indent [of dquote ind lvl "r' @ ?close"] d by (simp add: is_ws_def)
  have t: "tl (iterencode_dict ind lvl (kv # kvs)) @ ?close
             = concat (map escape_ascii (fst kv)) @ dquote # CHR '':'' # CHR '' '' # c # r @ ?tail"
    using h(1) assms(1) by (simp add: encode_basestring_ascii_def)
  from assms(2) h(1) have x: "scan_once m (c # r @ ?tail) = Inr (snd kv, ?tail)" by simp
  from assms(3) d have y: "scan_members m (r' @ ?close) (acc @ [kv]) = Inr (acc @ kv # kvs, rest)"
    by simp
  show ?thesis
    unfolding t scan_members_key [OF h] x using a b y by simp
qed

lemma newline_indent_hd: "hd (newline_indent ind k @ s) = newline"
  by (simp add: newline_indent_def)

lemma roundtrip_scan:
  "wf_json j \<Longrightarrow> size j < n \<Longrightarrow> rest = [] \<or> hd rest = CHR '','' \<or> hd rest = newline \<Longrightarrow>
     scan_once n (iterencode ind lvl j @ rest) = Inr (j, rest)"
  "wf_list xs \<Longrightarrow> xs \<noteq> [] \<Longrightarrow> size_list size xs < n \<Longrightarrow>
     scan_elems n (iterencode_list ind lvl xs @ newline_indent ind k @ '']'' @ rest) acc
       = Inr (acc @ xs, rest)"
  "wf_dict kvs \<Longrightarrow> kvs \<noteq> [] \<Longrightarrow> size_list (size_prod (\<lambda>x. 0) size) kvs < n \<Longrightarrow>
     scan_members n (tl (iterencode_dict ind lvl kvs) @ newline_indent ind k @ ''}'' @ rest) accd
       = Inr (accd @ kvs, rest)"
proof (induction ind lvl j and ind lvl xs and ind lvl kvs
       arbitrary: n rest and n k rest acc and n k rest accd
       rule: iterencode_iterencode_list_iterencode_dict.induct)
  case (1 ind lvl)
  then obtain m where "n = Suc m" by (cases n) auto
  then show ?case using scan_once_null [of m rest] by simp
next
  case (2 ind lvl b)
  then obtain m where "n = Suc m" by (cases n) auto
  then show ?case
    using scan_once_true [of m rest] scan_once_false [of m rest] by (cases b) simp_all
next
  case (3 ind lvl i)
  then obtain m where "n = Suc m" by (cases n) auto
  then show ?case using scan_once_int [OF "3.prems"(3), of m i] by simp
next
  case (4 ind lvl s)
  then obtain m where "n = Suc m" by (cases n) auto
  then show ?case using scan_once_str [of m s rest] by simp
next
  case (5 ind lvl xs)
  from "5.prems"(2) obtain m where n: "n = Suc m" by (cases n) auto
  show ?case
  proof (cases "xs = []")
    case True
    have "skip_ws (CHR '']'' # rest) = CHR '']'' # rest"
      by (rule skip_ws_keep) (simp add: is_ws_def)
    with True n show ?thesis by simp
  next
    case False
    from "5.prems"(1) have w: "wf_list xs" by simp
    from "5.prems"(2) n have s: "size_list size xs < m" by simp
    from "5.IH" [OF False w False s, of lvl rest "[]"]
    have "scan_elems m (iterencode_list ind (Suc lvl) xs @ newline_indent ind lvl @ '']'' @ rest) []
            = Inr (xs, rest)" by simp
    from scan_once_array [OF False this] n show ?thesis by simp
  qed
next
  case (6 ind lvl kvs)
  from "6.prems"(2) obtain m where n: "n = Suc m" by (cases n) auto
  show ?case
  proof (cases "kvs = []")
    case True
    have "skip_ws (CHR ''}'' # rest) = CHR ''}'' # rest"
      by (rule skip_ws_keep) (simp add: is_ws_def)
    with True n show ?thesis by simp
  next
    case False
    from "6.prems"(1) have w: "wf_dict kvs" and d: "distinct (map fst kvs)" by simp_all
    from "6.prems"(2) n have s: "size_list (size_prod (\<lambda>x. 0) size) kvs < m" by simp
    from "6.IH" [OF False w False s, of lvl rest "[]"]
    have "scan_members m (tl (iterencode_dict ind (Suc lvl) kvs) @ newline_indent ind lvl @ ''}'' @ rest) []
            = Inr (kvs, rest)" by simp
    from scan_once_object [OF False d this] n show ?thesis by simp
  qed
next
  case (7 ind lvl)
  then show ?case by simp
next
  case (8 ind lvl x xs)
  from "8.prems"(3) obtain m where n: "n = Suc m" by (cases n) auto
  from "8.prems"(1) have wx: "wf_json x" and wxs: "wf_list xs" by simp_all
  from "8.prems"(3) n have sx: "size x < m" and sxs: "size_list size xs < m" by simp_all
  show ?case
  proof (cases "xs = []")
    case True
    have "scan_once m (iterencode ind lvl x @ newline_indent ind k @ '']'' @ rest)
            = Inr (x, newline_indent ind k @ '']'' @ rest)"
      by (rule "8.IH"(1) [OF wx sx]) (simp add: newline_indent_hd)
    from scan_elems_last [OF this] True n show ?thesis by simp
  next
    case False
    have a: "scan_once m (iterencode ind lvl x @ CHR '','' # newline_indent ind lvl
                       @ iterencode_list ind lvl xs @ newline_indent ind k @ '']'' @ rest)
           = Inr (x, CHR '','' # newline_indent ind lvl
                       @ iterencode_list ind lvl xs @ newline_indent ind k @ '']'' @ rest)"
      by (rule "8.IH"(1) [OF wx sx]) simp
    have b: "scan_elems m (iterencode_list ind lvl xs @ newline_indent ind k @ '']'' @ rest) (acc @ [x])
           = Inr (acc @ x # xs, rest)"
      using "8.IH"(2) [OF False wxs False sxs, of k rest "acc @ [x]"] by simp
    from scan_elems_more [OF False a b] n show ?thesis by simp
  qed
next
  case (9 ind lvl)
  then show ?case by simp
next
  case (10 ind lvl kv kvs)
  from "10.prems"(3) obtain m where n: "n = Suc m" by (cases n) auto
  from "10.prems"(1) have wx: "wf_json (snd kv)" and wxs: "wf_dict kvs" by simp_all
  from "10.prems"(3) n have sx: "size (snd kv) < m"
    and sxs: "size_list (size_prod (\<lambda>x. 0) size) kvs < m"
    by (cases kv; simp)+
  show ?case
  proof (cases "kvs = []")
    case True
    have "scan_once m (iterencode ind lvl (snd kv) @ newline_indent ind k @ ''}'' @ rest)
            = Inr (snd kv, newline_indent ind k @ ''}'' @ rest)"
      by (rule "10.IH"(1) [OF wx sx]) (simp add: newline_indent_hd)
    from scan_members_last [OF this] True n show ?thesis by simp
  next
    case False
    have a: "scan_once m (iterencode ind lvl (snd kv) @ CHR '','' # newline_indent ind lvl
                       @ iterencode_dict ind lvl kvs @ newline_indent ind k @ ''}'' @ rest)
           = Inr (snd kv, CHR '','' # newline_indent ind lvl
                       @ iterencode_dict ind lvl kvs @ newline_indent ind k @ ''}'' @ rest)"
      by (rule "10.IH"(1) [OF wx sx]) simp
    have b: "scan_members m (tl (iterencode_dict ind lvl kvs) @ newline_indent ind k @ ''}'' @ rest)
               (accd @ [kv])
           = Inr (accd @ kv # kvs, rest)"
      using "10.IH"(2) [OF False wxs False sxs, of k rest "accd @ [kv]"] by simp
    from scan_members_more [OF False a b] n show ?thesis by simp
  qed
qed

lemma size_le_encoded:
  "size j \<le> length (iterencode ind lvl j)"
  "size_list size xs \<le> length (iterencode_list ind lvl xs) + 1"
  "size_list (size_prod (\<lambda>x. 0) size) kvs \<le> length (iterencode_dict ind lvl kvs)"
proof (induction ind lvl j and ind lvl xs and ind lvl kvs
       rule: iterencode_iterencode_list_iterencode_dict.induct)
  case (5 ind lvl xs)
  then show ?case by (cases "xs = []") (simp_all add: newline_indent_def)
next
  case (6 ind lvl kvs)
  then show ?case by (cases "kvs = []") (simp_all add: newline_indent_def)
next
  case (8 ind lvl x xs)
  then show ?case by (cases "xs = []") (simp_all add: newline_indent_def)
next
  case (10 ind lvl kv kvs)
  then show ?case
    by (cases kv; cases "kvs = []") (simp_all add: newline_indent_def encode_basestring_ascii_def)
qed simp_all

lemma json_roundtrip:
  assumes "wf_json j"
  shows "json_loads (json_dumps ind j) = Inr j"
proof -
  let ?s = "iterencode ind 0 j"
  from iterencode_head [of ind 0 j] obtain c r where
    h: "?s = c # r" "\<not> is_ws c" by blast
  then have k: "skip_ws ?s = ?s" by (simp add: skip_ws_keep)
  have "size j < Suc (2 * length ?s)"
    using size_le_encoded(1) [of j ind 0] by simp
  from roundtrip_scan(1) [OF assms this, of "[]" ind 0]
  have "scan_once (Suc (2 * length ?s)) ?s = Inr (j, [])" by simp
  with k show ?thesis
    by (simp add: json_loads_def json_dumps_def skip_ws_def)
qed

section \<open>\<^verbatim>\<open>dump_catalog\<close> and the round trip\<close>

lemma clash_dumps: "json_dumps 4 (catalog_json (catalog clash_result)) = clash_text"
  by code_simp

lemma dump_catalog_None:
  "dump_catalog w b None = Inr (w, json_dumps 4 (catalog_json (catalog b)))"
  by (simp add: dump_catalog_def)

lemma dump_catalog_Some:
  "can_write w p \<Longrightarrow>
     dump_catalog w b (Some p)
       = Inr (w\<lparr>files := (files w)(p \<mapsto> json_dumps 4 (catalog_json (catalog b)))\<rparr>,
              json_dumps 4 (catalog_json (catalog b)))"
  by (simp add: dump_catalog_def Let_def)

text \<open>
  Claim C8. \<^verbatim>\<open>dump_catalog\<close> returns \<^verbatim>\<open>json.dumps(self.catalog, indent=4)\<close>, with or
  without an output path; with an output path that can be opened for writing it writes
  exactly that text there and changes nothing else. The text lists the keys in the
  order of the catalog: its first line after the brace is the first key, indented by
  four blanks, and reading the text back gives the catalog with its keys in the same
  order.
\<close>

theorem dump_catalog_text:
  "dump_catalog w b None = Inr (w, json_dumps 4 (catalog_json (catalog b)))
   \<and> (can_write w p \<longrightarrow>
        dump_catalog w b (Some p)
          = Inr (w\<lparr>files := (files w)(p \<mapsto> json_dumps 4 (catalog_json (catalog b)))\<rparr>,
                 json_dumps 4 (catalog_json (catalog b))))
   \<and> (wf_json (catalog_json (catalog b)) \<longrightarrow>
        json_loads (json_dumps 4 (catalog_json (catalog b))) = Inr (catalog_json (catalog b)))
   \<and> (catalog_json (catalog b) = JObj [] \<longrightarrow> json_dumps 4 (catalog_json (catalog b)) = ''{}'')
   \<and> (\<forall>kv kvs. catalog_json (catalog b) = JObj (kv # kvs) \<longrightarrow>
        json_dumps 4 (catalog_json (catalog b))
          = ''{'' @ [newline] @ replicate 4 CHR '' ''
            @ encode_basestring_ascii (fst kv) @ '': '' @ iterencode 4 1 (snd kv)
            @ (if kvs = [] then []
               else '','' @ [newline] @ replicate 4 CHR '' '' @ iterencode_dict 4 1 kvs)
            @ [newline] @ ''}'')"
proof (intro conjI impI allI)
  show "dump_catalog w b None = Inr (w, json_dumps 4 (catalog_json (catalog b)))"
    by (rule dump_catalog_None)
next
  assume "can_write w p"
  then show "dump_catalog w b (Some p)
          = Inr (w\<lparr>files := (files w)(p \<mapsto> json_dumps 4 (catalog_json (catalog b)))\<rparr>,
                 json_dumps 4 (catalog_json (catalog b)))"
    by (rule dump_catalog_Some)
next
  assume "wf_json (catalog_json (catalog b))"
  then show "json_loads (json_dumps 4 (catalog_json (catalog b))) = Inr (catalog_json (catalog b))"
    by (rule json_roundtrip)
next
  assume "catalog_json (catalog b) = JObj []"
  then show "json_dumps 4 (catalog_json (catalog b)) = ''{}''"
    by (simp add: json_dumps_def)
next
  fix kv kvs
  assume "catalog_json (catalog b) = JObj (kv # kvs)"
  then show "json_dumps 4 (catalog_json (catalog b))
          = ''{'' @ [newline] @ replicate 4 CHR '' ''
            @ encode_basestring_ascii (fst kv) @ '': '' @ iterencode 4 1 (snd kv)
            @ (if kvs = [] then []
               else '','' @ [newline] @ replicate 4 CHR '' '' @ iterencode_dict 4 1 kvs)
            @ [newline] @ ''}''"
    by (simp add: json_dumps_def newline_indent_def)
qed

theorem dump_catalog_text_witness:
  "dump_catalog empty_world clash_result (Some ''/srv/site/catalog.json'')
     = Inr (empty_world\<lparr>files := (files empty_world)(''/srv/site/catalog.json'' \<mapsto> clash_text)\<rparr>,
            clash_text)
   \<and> json_loads clash_text = Inr (catalog_json (catalog clash_result))"
proof -
  have c: "can_write empty_world ''/srv/site/catalog.json''"
    by (simp add: empty_world_def)
  have w: "wf_json (catalog_json (catalog clash_result))"
    by (simp add: clash_result_def catalog_json_def)
  from dump_catalog_text [of empty_world clash_result "''/srv/site/catalog.json''"] c w
  show ?thesis by (simp add: clash_dumps)
qed

text \<open>
  Claim C7. Round trip: when \<^verbatim>\<open>dump_catalog\<close> writes a catalog to the path that a
  builder in replay mode reads, \<^verbatim>\<open>{index_dir}/catalog.json\<close>, and the file is not
  touched in between, \<^verbatim>\<open>load_catalog\<close> of that builder yields a catalog equal to the
  original, key order included.
\<close>

theorem dump_load_roundtrip:
  assumes "wf_json (catalog_json (catalog b))"
    and "can_write w p"
    and "develop b2"
    and "os_path_join (index_dir b2) ''catalog.json'' = p"
  shows "\<exists>w1 cat_json w2 b3.
           dump_catalog w b (Some p) = Inr (w1, cat_json)
         \<and> load_catalog e w1 b2 = Inr (w2, b3)
         \<and> catalog_json (catalog b3) = catalog_json (catalog b)"
proof -
  let ?t = "json_dumps 4 (catalog_json (catalog b))"
  let ?w1 = "w\<lparr>files := (files w)(p \<mapsto> ?t)\<rparr>"
  have d: "dump_catalog w b (Some p) = Inr (?w1, ?t)"
    by (rule dump_catalog_Some [OF assms(2)])
  have f: "files ?w1 (os_path_join (index_dir b2) ''catalog.json'') = Some ?t"
    using assms(4) by simp
  have l: "json_loads ?t = Inr (catalog_json (catalog b))"
    by (rule json_roundtrip [OF assms(1)])
  from load_catalog_develop [OF assms(3) f l, of e] d show ?thesis
    by (simp add: catalog_json_def)
qed

theorem dump_load_roundtrip_witness:
  "\<exists>w1 cat_json w2 b3.
      dump_catalog demo_out demo_result (Some ''/srv/site/catalog.json'') = Inr (w1, cat_json)
    \<and> load_catalog no_network w1 (demo_builder\<lparr>develop := True\<rparr>) = Inr (w2, b3)
    \<and> catalog_json (catalog b3) = catalog_json (catalog demo_result)"
proof -
  have a: "wf_json (catalog_json (catalog demo_result))"
    by (simp add: demo_result_def catalog_json_def)
  have b: "can_write demo_out ''/srv/site/catalog.json''"
    by (simp add: demo_out_def empty_world_def)
  have c: "develop (demo_builder\<lparr>develop := True\<rparr>)" by simp
  have d: "os_path_join (index_dir (demo_builder\<lparr>develop := True\<rparr>)) ''catalog.json''
             = ''/srv/site/catalog.json''"
    by (simp add: demo_builder_def os_path_join_def)
  from dump_load_roundtrip [OF a b c d, of no_network] show ?thesis .
qed

section \<open>The region of a remote file\<close>

lemma prefix_shorter: "prefix p (xs @ ys) \<Longrightarrow> length p \<le> length xs \<Longrightarrow> prefix p xs"
  by (metis prefix_append prefix_def append_eq_append_conv_if take_is_prefix)

lemma find_sub_extend:
  "find_sub pat (pre @ pat) = Some (length pre) \<Longrightarrow>
     find_sub pat (pre @ pat @ rest) = Some (length pre)"
proof (induction pre)
  case Nil
  show ?case
  proof (cases "pat @ rest")
    case Nil
    then show ?thesis by simp
  next
    case (Cons a l)
    then have "prefix pat (a # l)" by (metis prefixI)
    with Cons show ?thesis by simp
  qed
next
  case (Cons c pre)
  from Cons.prems have np: "\<not> prefix pat (c # pre @ pat)"
    by (auto split: if_splits)
  with Cons.prems have "find_sub pat (pre @ pat) = Some (length pre)"
    by (auto split: if_splits)
  from Cons.IH [OF this] have ih: "find_sub pat (pre @ pat @ rest) = Some (length pre)" .
  have "\<not> prefix pat (c # pre @ pat @ rest)"
  proof
    assume "prefix pat (c # pre @ pat @ rest)"
    then have "prefix pat ((c # pre @ pat) @ rest)" by simp
    then have "prefix pat (c # pre @ pat)"
      by (rule prefix_shorter) simp
    with np show False ..
  qed
  with ih show ?case by simp
qed

lemma text_between_hello:
  assumes "find_sub ''START'' (pre @ ''START'') = Some (length pre)"
  shows "text_between ''START'' ''END''
           (pre @ ''START'' @ [newline] @ ''HELLO'' @ [newline] @ ''END'' @ post)
         = Some ([newline] @ ''HELLO'' @ [newline])"
proof -
  have "find_sub ''START'' (pre @ ''START'' @ ([newline] @ ''HELLO'' @ [newline] @ ''END'' @ post))
          = Some (length pre)"
    by (rule find_sub_extend [OF assms])
  then show ?thesis
    by (simp add: text_between_def)
qed

text \<open>
  Claim C5. For a \<^verbatim>\<open>github_file\<close> attribute whose fetched file is
  \<^verbatim>\<open>...START\nHELLO\nEND...\<close>, with start marker \<^verbatim>\<open>START\<close> and end marker \<^verbatim>\<open>END\<close>,
  the value of the resolved attribute is exactly \<^verbatim>\<open>\nHELLO\n\<close>. The dots stand for
  any text; before the marker there is no earlier occurrence of \<^verbatim>\<open>START\<close>.
\<close>

theorem file_region_between_markers:
  assumes "fetch (org p) (repo p) (branch p) path
             = Inr (pre @ ''START'' @ [newline] @ ''HELLO'' @ [newline] @ ''END'' @ post)"
    and "find_sub ''START'' (pre @ ''START'') = Some (length pre)"
    and "map_of config ''type'' = Some (JStr ''github_file'')"
    and "map_of config ''source'' = Some (JStr path)"
    and "map_of config ''start_header'' = Some (JStr ''START'')"
    and "map_of config ''end_header'' = Some (JStr ''END'')"
  shows "get_from_github_api fetch p config = Inr (JStr ([newline] @ ''HELLO'' @ [newline]))
       \<and> resolve_attr (hosting_env cp fetch) p attr (JObj config)
           = Inr (JObj [(''source'', JStr (''https://github.com/'' @ org p @ ''/'' @ repo p
                                           @ ''/blob/'' @ branch p @ ''/'' @ path)),
                        (''value'', JStr ([newline] @ ''HELLO'' @ [newline]))], [])"
proof -
  have g: "get_from_github_api fetch p config = Inr (JStr ([newline] @ ''HELLO'' @ [newline]))"
    using assms(1,4,5,6) text_between_hello [OF assms(2), of post]
    by (simp add: get_from_github_api_def)
  then show ?thesis
    using assms(3,4)
    by (simp add: resolve_attr_def getitem_def hosting_env_def py_str_def)
qed

theorem file_region_between_markers_witness:
  "resolve_attr (hosting_env ''/srv/Catalog/catalog_builder'' readme_fetch)
      \<lparr>org = ''PSLmodels'', repo = ''Tax-Calculator'', branch = ''master''\<rparr>
      ''project_overview'' (JObj region_config)
     = Inr (JObj [(''source'',
                   JStr ''https://github.com/PSLmodels/Tax-Calculator/blob/master/README.md''),
                  (''value'', JStr ([newline] @ ''HELLO'' @ [newline]))], [])"
  using file_region_between_markers
          [where fetch = readme_fetch
             and p = "\<lparr>org = ''PSLmodels'', repo = ''Tax-Calculator'', branch = ''master''\<rparr>"
             and path = "''README.md''" and pre = "''...''" and post = "''...''"
             and config = region_config and cp = "''/srv/Catalog/catalog_builder''"
             and attr = "''project_overview''"]
  by (simp add: readme_fetch_def region_config_def)

end
